theory Spec2Isabelle
  imports Main "HOL-Library.AList"
begin

section \<open>Package names (index.js, lines 18 to 29)\<close>

text \<open>
  A JavaScript string is modelled as the list of its code units, restricted to the code
  units below 256 (ASCII and the Latin-1 supplement), one \<open>char\<close> each. On that range
  \<open>trim\<close> and the regular expression class \<open>\s\<close> recognise the same seven code units, and
  \<open>toLowerCase\<close> moves \<open>A\<close> to \<open>Z\<close> and the Latin-1 capitals (0xC0 to 0xDE, without the
  multiplication sign 0xD7) up by 32.
\<close>

definition isWhiteSpace :: "char \<Rightarrow> bool" where
  "isWhiteSpace c \<longleftrightarrow>
     c \<in> set [CHR 0x09, CHR 0x0A, CHR 0x0B, CHR 0x0C, CHR 0x0D, CHR 0x20, CHR 0xA0]"

definition trim :: "string \<Rightarrow> string" where
  "trim s = rev (dropWhile isWhiteSpace (rev (dropWhile isWhiteSpace s)))"

definition lowerChar :: "char \<Rightarrow> char" where
  "lowerChar c =
     (let n = (of_char c :: nat)
      in if (65 \<le> n \<and> n \<le> 90) \<or> (192 \<le> n \<and> n \<le> 222 \<and> n \<noteq> 215)
         then char_of (n + 32) else c)"

definition toLowerCase :: "string \<Rightarrow> string" where
  "toLowerCase s = map lowerChar s"

text \<open>
  \<open>s.replace(/[C]+/g, rep)\<close> for a character class \<open>C\<close>: matching is leftmost and greedy,
  so every maximal run of characters of the class is replaced by one copy of \<open>rep\<close>.
\<close>

function replaceRuns :: "(char \<Rightarrow> bool) \<Rightarrow> string \<Rightarrow> string \<Rightarrow> string" where
  "replaceRuns C rep [] = []"
| "replaceRuns C rep (c # cs) =
     (if C c then rep @ replaceRuns C rep (dropWhile C cs) else c # replaceRuns C rep cs)"
  by pat_completeness auto
termination
  by (relation "measure (\<lambda>(C, rep, s). length s)")
     (auto simp: less_Suc_eq_le length_dropWhile_le)

text \<open>\<open>s.replace(/^[._]/, '')\<close>: not global and anchored, it drops one leading dot or underscore.\<close>

fun stripLeading :: "string \<Rightarrow> string" where
  "stripLeading [] = []"
| "stripLeading (c # cs) = (if c = CHR ''.'' \<or> c = CHR ''_'' then cs else c # cs)"

text \<open>The character classes of the two regular expressions, written out.\<close>

definition lowerDigit :: "char \<Rightarrow> bool" where
  "lowerDigit c \<longleftrightarrow> c \<in> set ''abcdefghijklmnopqrstuvwxyz0123456789''"

definition scopeFirst :: "char \<Rightarrow> bool" where   \<comment> \<open>\<open>[a-z0-9-*~]\<close>\<close>
  "scopeFirst c \<longleftrightarrow> lowerDigit c \<or> c \<in> set ''-*~''"

definition scopeRest :: "char \<Rightarrow> bool" where    \<comment> \<open>\<open>[a-z0-9-*._~]\<close>\<close>
  "scopeRest c \<longleftrightarrow> lowerDigit c \<or> c \<in> set ''-*._~''"

definition nameFirst :: "char \<Rightarrow> bool" where    \<comment> \<open>\<open>[a-z0-9-~]\<close>\<close>
  "nameFirst c \<longleftrightarrow> lowerDigit c \<or> c \<in> set ''-~''"

definition nameRest :: "char \<Rightarrow> bool" where     \<comment> \<open>\<open>[a-z0-9-._~]\<close>\<close>
  "nameRest c \<longleftrightarrow> lowerDigit c \<or> c \<in> set ''-._~''"

text \<open>
  A backtracking matcher in continuation style: \<open>one C k\<close> consumes one character of the
  class and goes on with \<open>k\<close>, \<open>many C k\<close> is \<open>[C]*\<close> followed by \<open>k\<close> (longest run first),
  \<open>atEnd\<close> is \<open>$\<close> of a regular expression without the multiline flag.
\<close>

fun one :: "(char \<Rightarrow> bool) \<Rightarrow> (string \<Rightarrow> bool) \<Rightarrow> string \<Rightarrow> bool" where
  "one C k [] = False"
| "one C k (c # cs) = (C c \<and> k cs)"

fun many :: "(char \<Rightarrow> bool) \<Rightarrow> (string \<Rightarrow> bool) \<Rightarrow> string \<Rightarrow> bool" where
  "many C k [] = k []"
| "many C k (c # cs) = ((C c \<and> many C k cs) \<or> k (c # cs))"

definition atEnd :: "string \<Rightarrow> bool" where
  "atEnd s \<longleftrightarrow> s = []"

definition unscopedName :: "string \<Rightarrow> bool" where   \<comment> \<open>\<open>[a-z0-9-~][a-z0-9-._~]*$\<close>\<close>
  "unscopedName = one nameFirst (many nameRest atEnd)"

definition isValidPackageName :: "string \<Rightarrow> bool" where
  \<comment> \<open>\<open>/^(?:@[a-z0-9-*~][a-z0-9-*._~]*\/)?[a-z0-9-~][a-z0-9-._~]*$/\<close>: the optional group is
      tried first, then skipped\<close>
  "isValidPackageName projectName \<longleftrightarrow>
     one (\<lambda>c. c = CHR ''@'')
       (one scopeFirst (many scopeRest (one (\<lambda>c. c = CHR ''/'') unscopedName))) projectName
     \<or> unscopedName projectName"

definition toValidPackageName :: "string \<Rightarrow> string" where
  "toValidPackageName projectName =
     replaceRuns (\<lambda>c. \<not> nameFirst c) ''-''
       (stripLeading
         (replaceRuns isWhiteSpace ''-''
           (toLowerCase (trim projectName))))"

section \<open>The templates rendered (index.js, lines 243 to 283)\<close>

text \<open>
  The feature choices after the destructuring of lines 209 to 219, each read for its
  truthiness as the conditions of lines 247 to 283 do.
\<close>

record features =
  needsJsx :: bool
  needsTypeScript :: bool
  needsRouter :: bool
  needsPinia :: bool
  needsTests :: bool
  needsEslint :: bool
  needsPrettier :: bool

datatype rendering = Render string | RenderEslint

definition codeTemplate :: "features \<Rightarrow> string" where
  "codeTemplate f =
     (if needsTypeScript f then ''typescript-'' else '''') @
     (if needsRouter f then ''router'' else ''default'')"

definition entryTemplate :: "features \<Rightarrow> string" where
  "entryTemplate f =
     (if needsPinia f \<and> needsRouter f then ''router-and-pinia''
      else if needsPinia f then ''pinia''
      else if needsRouter f then ''router''
      else ''default'')"

definition renderings :: "features \<Rightarrow> rendering list" where
  "renderings f =
     [Render ''base''] @
     (if needsJsx f then [Render ''config/jsx''] else []) @
     (if needsRouter f then [Render ''config/router''] else []) @
     (if needsPinia f then [Render ''config/pinia''] else []) @
     (if needsTests f then [Render ''config/cypress''] else []) @
     (if needsTypeScript f then [Render ''config/typescript''] else []) @
     (if needsEslint f then [RenderEslint] else []) @
     [Render (''code/'' @ codeTemplate f)] @
     [Render (''entry/'' @ entryTemplate f)]"

fun rendersUnder :: "string \<Rightarrow> rendering \<Rightarrow> bool" where
  "rendersUnder dir (Render name) = (take (length dir) name = dir)"
| "rendersUnder dir RenderEslint = False"

section \<open>The file system\<close>

text \<open>
  The files below the working directory form a tree: a regular file with its content, or
  a directory with its entries in listing order. A path is the list of the names that lead
  from the working directory to an entry, so \<open>path.resolve(dir, filename)\<close> is
  \<open>dir @ [filename]\<close>. Symbolic links, permissions and the other failures of the host
  are not part of the model.
\<close>

datatype node = File string | Dir "(string \<times> node) list"

type_synonym path = "string list"

datatype exn =
  OperationCancelled | ENOENT | ENOTDIR | EISDIR | ENOTEMPTY | EEXIST | EINVAL

text \<open>
  A call returns a value or throws. \<open>Unfinished\<close> is the answer of a traversal whose
  recursion went deeper than the fuel it was given. A call that throws gives no tree back:
  what a failed run leaves on the disk is not modelled.
\<close>

datatype 'a run = Returned 'a | Thrown exn | Unfinished

fun andThen :: "'a run \<Rightarrow> ('a \<Rightarrow> 'b run) \<Rightarrow> 'b run" where
  "andThen (Returned x) f = f x"
| "andThen (Thrown e) f = Thrown e"
| "andThen Unfinished f = Unfinished"

fun lookup :: "node \<Rightarrow> path \<Rightarrow> node option" where
  "lookup n [] = Some n"
| "lookup (File c) (a # p) = None"
| "lookup (Dir es) (a # p) = (case map_of es a of None \<Rightarrow> None | Some n \<Rightarrow> lookup n p)"

definition dirname :: "path \<Rightarrow> path" where
  "dirname p = butlast p"

definition basename :: "path \<Rightarrow> string" where
  "basename p = (case rev p of [] \<Rightarrow> [] | name # _ \<Rightarrow> name)"

text \<open>\<open>inDir p f\<close> rewrites the entries of the directory at \<open>p\<close> with \<open>f\<close>.\<close>

fun inDir ::
  "path \<Rightarrow> ((string \<times> node) list \<Rightarrow> (string \<times> node) list run) \<Rightarrow> node \<Rightarrow> node run" where
  "inDir p f (File c) = Thrown ENOTDIR"
| "inDir [] f (Dir es) = andThen (f es) (\<lambda>es'. Returned (Dir es'))"
| "inDir (a # p) f (Dir es) =
     (case map_of es a of
        None \<Rightarrow> Thrown ENOENT
      | Some n \<Rightarrow> andThen (inDir p f n) (\<lambda>n'. Returned (Dir (AList.update a n' es))))"

definition existsSync :: "path \<Rightarrow> node \<Rightarrow> bool" where
  "existsSync p fs \<longleftrightarrow> lookup fs p \<noteq> None"

definition readdirSync :: "path \<Rightarrow> node \<Rightarrow> string list run" where
  "readdirSync p fs =
     (case lookup fs p of
        None \<Rightarrow> Thrown ENOENT
      | Some (File c) \<Rightarrow> Thrown ENOTDIR
      | Some (Dir es) \<Rightarrow> Returned (map fst es))"

definition isDirectory :: "path \<Rightarrow> node \<Rightarrow> bool run" where   \<comment> \<open>\<open>fs.lstatSync(p).isDirectory()\<close>\<close>
  "isDirectory p fs =
     (case lookup fs p of
        None \<Rightarrow> Thrown ENOENT
      | Some (File c) \<Rightarrow> Returned False
      | Some (Dir es) \<Rightarrow> Returned True)"

definition unlinkSync :: "path \<Rightarrow> node \<Rightarrow> node run" where
  "unlinkSync p fs =
     (if p = [] then Thrown EISDIR
      else inDir (dirname p)
        (\<lambda>es. case map_of es (basename p) of
           None \<Rightarrow> Thrown ENOENT
         | Some (Dir sub) \<Rightarrow> Thrown EISDIR
         | Some (File c) \<Rightarrow> Returned (AList.delete (basename p) es)) fs)"

definition rmdirSync :: "path \<Rightarrow> node \<Rightarrow> node run" where
  "rmdirSync p fs =
     (if p = [] then Thrown EINVAL
      else inDir (dirname p)
        (\<lambda>es. case map_of es (basename p) of
           None \<Rightarrow> Thrown ENOENT
         | Some (File c) \<Rightarrow> Thrown ENOTDIR
         | Some (Dir sub) \<Rightarrow>
             if sub = [] then Returned (AList.delete (basename p) es) else Thrown ENOTEMPTY) fs)"

definition mkdirSync :: "path \<Rightarrow> node \<Rightarrow> node run" where
  "mkdirSync p fs =
     (if p = [] then Thrown EEXIST
      else inDir (dirname p)
        (\<lambda>es. case map_of es (basename p) of
           None \<Rightarrow> Returned (AList.update (basename p) (Dir []) es)
         | Some n \<Rightarrow> Thrown EEXIST) fs)"

definition readFileSync :: "path \<Rightarrow> node \<Rightarrow> string run" where
  "readFileSync p fs =
     (case lookup fs p of
        None \<Rightarrow> Thrown ENOENT
      | Some (Dir es) \<Rightarrow> Thrown EISDIR
      | Some (File c) \<Rightarrow> Returned c)"

definition writeFileSync :: "path \<Rightarrow> string \<Rightarrow> node \<Rightarrow> node run" where
  "writeFileSync p content fs =
     (if p = [] then Thrown EISDIR
      else inDir (dirname p)
        (\<lambda>es. case map_of es (basename p) of
           Some (Dir sub) \<Rightarrow> Thrown EISDIR
         | _ \<Rightarrow> Returned (AList.update (basename p) (File content) es)) fs)"

text \<open>
  \<open>rename(2)\<close>: the entry moves with its subtree and replaces a file, or an empty
  directory, that has the new name.
\<close>

definition renameSync :: "path \<Rightarrow> path \<Rightarrow> node \<Rightarrow> node run" where
  "renameSync oldPath newPath fs =
     (case lookup fs oldPath of
        None \<Rightarrow> Thrown ENOENT
      | Some n \<Rightarrow>
          if oldPath = [] \<or> newPath = [] then Thrown EINVAL
          else if oldPath = newPath then Returned fs
          else
            (case (n, lookup fs newPath) of
               (File c, Some (Dir sub)) \<Rightarrow> Thrown EISDIR
             | (Dir sub, Some (File c)) \<Rightarrow> Thrown ENOTDIR
             | (Dir sub, Some (Dir (e # es))) \<Rightarrow> Thrown ENOTEMPTY
             | (Dir sub, _) \<Rightarrow>
                 if take (length oldPath) newPath = oldPath then Thrown EINVAL
                 else
                   andThen
                     (inDir (dirname oldPath)
                        (\<lambda>es. Returned (AList.delete (basename oldPath) es)) fs)
                     (inDir (dirname newPath)
                        (\<lambda>es. Returned (AList.update (basename newPath) n es)))
             | (File c, _) \<Rightarrow>
                 andThen
                   (inDir (dirname oldPath)
                      (\<lambda>es. Returned (AList.delete (basename oldPath) es)) fs)
                   (inDir (dirname newPath)
                      (\<lambda>es. Returned (AList.update (basename newPath) n es)))))"

text \<open>A directory lists every name once; \<open>depth\<close> counts the directories nested in a tree.\<close>

fun wellFormed :: "node \<Rightarrow> bool" where
  "wellFormed (File c) = True"
| "wellFormed (Dir es) = (distinct (map fst es) \<and> list_all (\<lambda>e. wellFormed (snd e)) es)"

fun depth :: "node \<Rightarrow> nat" where
  "depth (File c) = 0"
| "depth (Dir es) = Suc (fold max (map (\<lambda>e. depth (snd e)) es) 0)"

section \<open>Directory traversal (utils/directoryTraverse.js)\<close>

text \<open>
  The two traversals of \<open>utils/directoryTraverse.js\<close>, a file of this repository that
  is not among its sources here. The first argument of both is the fuel: the number of
  directory levels that the recursion may enter.
\<close>

type_synonym callback = "path \<Rightarrow> node \<Rightarrow> node run"

text \<open>
  Modelled from the spec: \<open>preOrderDirectoryTraverse\<close> of \<open>utils/directoryTraverse.js\<close>,
  which is missing. It reads the listing of the directory once and visits the entries in
  that order, a directory through the directory callback and anything else through the
  file callback; after the directory callback it descends into the directory, unless the
  callback has removed it. The root itself is given to no callback.
\<close>

fun preOrderDirectoryTraverse :: "nat \<Rightarrow> path \<Rightarrow> callback \<Rightarrow> callback \<Rightarrow> node \<Rightarrow> node run"
  and preOrderEntries :: "nat \<Rightarrow> path \<Rightarrow> string list \<Rightarrow> callback \<Rightarrow> callback \<Rightarrow> node \<Rightarrow> node run"
  where
  "preOrderDirectoryTraverse 0 dir dirCallback fileCallback fs = Unfinished"
| "preOrderDirectoryTraverse (Suc n) dir dirCallback fileCallback fs =
     andThen (readdirSync dir fs)
       (\<lambda>names. preOrderEntries n dir names dirCallback fileCallback fs)"
| "preOrderEntries n dir [] dirCallback fileCallback fs = Returned fs"
| "preOrderEntries n dir (filename # rest) dirCallback fileCallback fs =
     andThen (isDirectory (dir @ [filename]) fs)
       (\<lambda>isDir.
          if isDir then
            andThen (dirCallback (dir @ [filename]) fs)
              (\<lambda>fs'.
                 andThen
                   (if existsSync (dir @ [filename]) fs'
                    then preOrderDirectoryTraverse n (dir @ [filename]) dirCallback fileCallback fs'
                    else Returned fs')
                   (preOrderEntries n dir rest dirCallback fileCallback))
          else
            andThen (fileCallback (dir @ [filename]) fs)
              (preOrderEntries n dir rest dirCallback fileCallback))"

text \<open>
  Modelled from the spec: \<open>postOrderDirectoryTraverse\<close> of \<open>utils/directoryTraverse.js\<close>,
  which is missing. It visits the entries like the pre-order traversal, but descends into
  a directory first and calls the directory callback afterwards, so that a directory can
  be removed once its content is. The root is given to no callback here either: lines 328
  and 329 remove a directory themselves after they have emptied it.
\<close>

fun postOrderDirectoryTraverse :: "nat \<Rightarrow> path \<Rightarrow> callback \<Rightarrow> callback \<Rightarrow> node \<Rightarrow> node run"
  and postOrderEntries :: "nat \<Rightarrow> path \<Rightarrow> string list \<Rightarrow> callback \<Rightarrow> callback \<Rightarrow> node \<Rightarrow> node run"
  where
  "postOrderDirectoryTraverse 0 dir dirCallback fileCallback fs = Unfinished"
| "postOrderDirectoryTraverse (Suc n) dir dirCallback fileCallback fs =
     andThen (readdirSync dir fs)
       (\<lambda>names. postOrderEntries n dir names dirCallback fileCallback fs)"
| "postOrderEntries n dir [] dirCallback fileCallback fs = Returned fs"
| "postOrderEntries n dir (filename # rest) dirCallback fileCallback fs =
     andThen (isDirectory (dir @ [filename]) fs)
       (\<lambda>isDir.
          if isDir then
            andThen (postOrderDirectoryTraverse n (dir @ [filename]) dirCallback fileCallback fs)
              (\<lambda>fs'.
                 andThen (dirCallback (dir @ [filename]) fs')
                   (postOrderEntries n dir rest dirCallback fileCallback))
          else
            andThen (fileCallback (dir @ [filename]) fs)
              (postOrderEntries n dir rest dirCallback fileCallback))"

section \<open>Emptying and cleaning the target (index.js, lines 31 to 41 and 285 to 334)\<close>

definition canSafelyOverwrite :: "path \<Rightarrow> node \<Rightarrow> bool run" where
  "canSafelyOverwrite dir fs =
     (if \<not> existsSync dir fs then Returned True
      else andThen (readdirSync dir fs) (\<lambda>names. Returned (length names = 0)))"

definition emptyDir :: "nat \<Rightarrow> path \<Rightarrow> node \<Rightarrow> node run" where
  "emptyDir fuel dir fs = postOrderDirectoryTraverse fuel dir rmdirSync unlinkSync fs"

definition noop :: callback where   \<comment> \<open>\<open>() => {}\<close>\<close>
  "noop p fs = Returned fs"

definition endsWith :: "string \<Rightarrow> string \<Rightarrow> bool" where
  "endsWith s suffix \<longleftrightarrow>
     length suffix \<le> length s \<and> drop (length s - length suffix) s = suffix"

definition replaceSuffix :: "string \<Rightarrow> string \<Rightarrow> string \<Rightarrow> string" where
  \<comment> \<open>\<open>s.replace(/suffix$/, replacement)\<close>, for a suffix of literal characters\<close>
  "replaceSuffix suffix replacement s =
     (if endsWith s suffix then take (length s - length suffix) s @ replacement else s)"

fun replaceFirst :: "string \<Rightarrow> string \<Rightarrow> string \<Rightarrow> string" where
  \<comment> \<open>\<open>s.replace(pattern, replacement)\<close> for a string pattern: the first occurrence only\<close>
  "replaceFirst pattern replacement [] = (if pattern = [] then replacement else [])"
| "replaceFirst pattern replacement (c # cs) =
     (if take (length pattern) (c # cs) = pattern
      then replacement @ drop (length pattern) (c # cs)
      else c # replaceFirst pattern replacement cs)"

text \<open>
  The file callback of lines 298 to 309. The source tests and rewrites the whole path
  string; a name holds no separator, so the last three characters of the path are those of
  its last name and the model works on that name.
\<close>

definition tsFileCallback :: callback where
  "tsFileCallback filepath fs =
     (if endsWith (basename filepath) ''.js'' then
        (let tsFilePath = dirname filepath @ [replaceSuffix ''.js'' ''.ts'' (basename filepath)]
         in if existsSync tsFilePath fs then unlinkSync filepath fs
            else renameSync filepath tsFilePath fs)
      else if basename filepath = ''jsconfig.json'' then
        renameSync filepath
          (dirname filepath @ [replaceSuffix ''jsconfig.json'' ''tsconfig.json'' (basename filepath)])
          fs
      else Returned fs)"

definition convertToTypeScript :: "nat \<Rightarrow> path \<Rightarrow> node \<Rightarrow> node run" where
  \<comment> \<open>the body of \<open>if (needsTypeScript)\<close>, lines 287 to 316\<close>
  "convertToTypeScript fuel root fs =
     andThen (preOrderDirectoryTraverse fuel root noop tsFileCallback fs)
       (\<lambda>fs'.
          andThen (readFileSync (root @ [''index.html'']) fs')
            (\<lambda>indexHtmlContent.
               writeFileSync (root @ [''index.html''])
                 (replaceFirst ''src/main.js'' ''src/main.ts'' indexHtmlContent) fs'))"

definition testsDirCallback :: "nat \<Rightarrow> callback" where
  \<comment> \<open>the directory callback of lines 324 to 331\<close>
  "testsDirCallback fuel dirpath fs =
     (if basename dirpath = ''cypress'' \<or> basename dirpath = ''__tests__''
      then andThen (emptyDir fuel dirpath fs) (rmdirSync dirpath)
      else Returned fs)"

definition removeTests :: "nat \<Rightarrow> path \<Rightarrow> node \<Rightarrow> node run" where
  \<comment> \<open>the body of \<open>if (!needsTests)\<close>, lines 318 to 334\<close>
  "removeTests fuel root fs = preOrderDirectoryTraverse fuel root (testsDirCallback fuel) noop fs"

section \<open>Command line and prompts (index.js, lines 43 to 226)\<close>

text \<open>
  The object that \<open>minimist\<close> returns: \<open>argv._[0]\<close> and one field for each group of
  aliased options (\<open>ts\<close> and \<open>typescript\<close>; \<open>tests\<close>, \<open>with-tests\<close> and \<open>cypress\<close>;
  \<open>router\<close> and \<open>vue-router\<close>). An option that was not given is \<open>undefined\<close>, here
  \<open>None\<close>.
\<close>

record argv =
  argv_positional :: "string option"
  argv_default :: "bool option"
  argv_ts :: "bool option"
  argv_jsx :: "bool option"
  argv_router :: "bool option"
  argv_pinia :: "bool option"
  argv_tests :: "bool option"
  argv_eslint :: "bool option"
  argv_eslint_with_prettier :: "bool option"
  argv_force :: "bool option"

definition truthy :: "bool option \<Rightarrow> bool" where
  "truthy v \<longleftrightarrow> v = Some True"

definition orElse :: "bool option \<Rightarrow> bool option \<Rightarrow> bool option" where   \<comment> \<open>\<open>a || b\<close>\<close>
  "orElse a b = (if truthy a then a else b)"

definition isFeatureFlagsUsed :: "argv \<Rightarrow> bool" where
  \<comment> \<open>\<open>typeof (...) === 'boolean'\<close>: the value of the chain is not \<open>undefined\<close>\<close>
  "isFeatureFlagsUsed a \<longleftrightarrow>
     orElse (orElse (orElse (orElse (orElse (orElse
       (argv_default a) (argv_ts a)) (argv_jsx a)) (argv_router a)) (argv_pinia a))
       (argv_tests a)) (argv_eslint a) \<noteq> None"

text \<open>
  The \<open>prompts\<close> library, as far as \<open>init\<close> uses it. The questions are asked in order.
  The \<open>type\<close> of a question is computed from the answers so far and may throw; a question
  of type \<open>null\<close> is skipped and leaves no answer. A text prompt submits what was typed, or
  its \<open>initial\<close> value when nothing was typed, takes the first submission that \<open>validate\<close>
  accepts and passes it to \<open>onState\<close>. When the user interrupts a prompt, \<open>onCancel\<close> runs,
  which here throws. The events record which prompts were shown and how each one ended.

  The user: \<open>typed u name\<close> lists what the user submits to the text prompt \<open>name\<close>, one
  try after the other, interrupting when the list is used up; \<open>chosen u name\<close> is the
  reply to the confirm or toggle prompt \<open>name\<close>, \<open>None\<close> for an interrupt.
\<close>

datatype answer = Text string | Flag bool

datatype ptype = TextPrompt | ConfirmPrompt | TogglePrompt

datatype event = Answered string answer | Interrupted string

fun eventName :: "event \<Rightarrow> string" where
  "eventName (Answered name a) = name"
| "eventName (Interrupted name) = name"

record user =
  typed :: "string \<Rightarrow> string list"
  chosen :: "string \<Rightarrow> bool option"

text \<open>
  \<open>targetDir\<close> is the variable of line 80 that \<open>onState\<close> assigns. Until then it is read
  for its truthiness only, so that \<open>undefined\<close> is modelled by the empty string.
\<close>

record pstate =
  targetDir :: string
  answers :: "(string \<times> answer) list"

record question =
  qname :: string
  qtype :: "pstate \<Rightarrow> ptype option run"
  qinitial :: "pstate \<Rightarrow> string"
  qvalidate :: "string \<Rightarrow> bool"
  qonState :: "string \<Rightarrow> pstate \<Rightarrow> pstate"

fun askUser :: "user \<Rightarrow> question \<Rightarrow> ptype \<Rightarrow> pstate \<Rightarrow> (answer \<times> pstate) option" where
  "askUser u q TextPrompt s =
     (case find (qvalidate q)
             (map (\<lambda>t. if t = [] then qinitial q s else t) (typed u (qname q))) of
        None \<Rightarrow> None
      | Some v \<Rightarrow> Some (Text v, qonState q v s))"
| "askUser u q ConfirmPrompt s =
     (case chosen u (qname q) of None \<Rightarrow> None | Some b \<Rightarrow> Some (Flag b, s))"
| "askUser u q TogglePrompt s =
     (case chosen u (qname q) of None \<Rightarrow> None | Some b \<Rightarrow> Some (Flag b, s))"

fun prompts :: "user \<Rightarrow> question list \<Rightarrow> pstate \<Rightarrow> event list \<times> pstate run" where
  "prompts u [] s = ([], Returned s)"
| "prompts u (q # qs) s =
     (case qtype q s of
        Thrown e \<Rightarrow> ([], Thrown e)
      | Unfinished \<Rightarrow> ([], Unfinished)
      | Returned None \<Rightarrow> prompts u qs s
      | Returned (Some ty) \<Rightarrow>
          (case askUser u q ty s of
             None \<Rightarrow> ([Interrupted (qname q)], Thrown OperationCancelled)
           | Some (a, s') \<Rightarrow>
               (case prompts u qs (s'\<lparr>answers := answers s' @ [(qname q, a)]\<rparr>) of
                  (events, r) \<Rightarrow> (Answered (qname q) a # events, r))))"

text \<open>
  \<open>path.join(cwd, targetDir)\<close> and the paths that \<open>fs\<close> resolves against the working
  directory, for a relative \<open>targetDir\<close> without \<open>..\<close> segments: the segments of the string,
  the empty ones and \<open>.\<close> left out.
\<close>

fun splitOn :: "char \<Rightarrow> string \<Rightarrow> string list" where
  "splitOn sep [] = [[]]"
| "splitOn sep (c # cs) =
     (if c = sep then [] # splitOn sep cs
      else (case splitOn sep cs of [] \<Rightarrow> [[c]] | w # ws \<Rightarrow> (c # w) # ws))"

definition relativePath :: "string \<Rightarrow> path" where
  "relativePath dir = filter (\<lambda>seg. seg \<noteq> [] \<and> seg \<noteq> ''.'') (splitOn CHR ''/'' dir)"

definition defaultProjectName :: "argv \<Rightarrow> string" where
  "defaultProjectName a =
     (case argv_positional a of
        None \<Rightarrow> ''vue-project''
      | Some dir \<Rightarrow> if dir = [] then ''vue-project'' else dir)"

definition featureToggle :: "argv \<Rightarrow> string \<Rightarrow> question" where
  "featureToggle a name =
     \<lparr>qname = name,
      qtype = (\<lambda>s. Returned (if isFeatureFlagsUsed a then None else Some TogglePrompt)),
      qinitial = (\<lambda>s. []), qvalidate = (\<lambda>v. True), qonState = (\<lambda>v s. s)\<rparr>"

definition questions :: "argv \<Rightarrow> node \<Rightarrow> question list" where
  "questions a fs =
     [\<lparr>qname = ''projectName'',
       qtype = (\<lambda>s. Returned
          (case argv_positional a of
             None \<Rightarrow> Some TextPrompt
           | Some dir \<Rightarrow> if dir = [] then Some TextPrompt else None)),
       qinitial = (\<lambda>s. defaultProjectName a),
       qvalidate = (\<lambda>v. True),
       qonState = (\<lambda>v s. s\<lparr>targetDir := (if trim v = [] then defaultProjectName a else trim v)\<rparr>)\<rparr>,
      \<lparr>qname = ''shouldOverwrite'',
       qtype = (\<lambda>s. andThen (canSafelyOverwrite (relativePath (targetDir s)) fs)
          (\<lambda>safe. Returned (if safe \<or> truthy (argv_force a) then None else Some ConfirmPrompt))),
       qinitial = (\<lambda>s. []), qvalidate = (\<lambda>v. True), qonState = (\<lambda>v s. s)\<rparr>,
      \<lparr>qname = ''overwriteChecker'',
       qtype = (\<lambda>s. if map_of (answers s) ''shouldOverwrite'' = Some (Flag False)
          then Thrown OperationCancelled else Returned None),
       qinitial = (\<lambda>s. []), qvalidate = (\<lambda>v. True), qonState = (\<lambda>v s. s)\<rparr>,
      \<lparr>qname = ''packageName'',
       qtype = (\<lambda>s. Returned (if isValidPackageName (targetDir s) then None else Some TextPrompt)),
       qinitial = (\<lambda>s. toValidPackageName (targetDir s)),
       qvalidate = isValidPackageName,
       qonState = (\<lambda>v s. s)\<rparr>,
      featureToggle a ''needsTypeScript'',
      featureToggle a ''needsJsx'',
      featureToggle a ''needsRouter'',
      featureToggle a ''needsPinia'',
      featureToggle a ''needsTests'',
      featureToggle a ''needsEslint'',
      \<lparr>qname = ''needsPrettier'',
       qtype = (\<lambda>s. Returned
          (if isFeatureFlagsUsed a \<or>
              map_of (answers s) ''needsEslint'' \<noteq> Some (Flag True)
           then None else Some TogglePrompt)),
       qinitial = (\<lambda>s. []), qvalidate = (\<lambda>v. True), qonState = (\<lambda>v s. s)\<rparr>]"

text \<open>
  Lines 43 to 205: the banner, the questions, and the handler that logs the message of
  whatever the questions threw and leaves with status 1.
\<close>

datatype logged = Banner | Message exn

datatype 'a step = Exit nat | Proceed 'a | Hang

definition askQuestions :: "argv \<Rightarrow> node \<Rightarrow> user \<Rightarrow> event list \<times> logged list \<times> pstate step" where
  "askQuestions a fs u =
     (case prompts u (questions a fs)
             \<lparr>targetDir = (case argv_positional a of None \<Rightarrow> [] | Some dir \<Rightarrow> dir),
              answers = []\<rparr> of
        (events, Returned s) \<Rightarrow> (events, [Banner], Proceed s)
      | (events, Thrown cancelled) \<Rightarrow> (events, [Banner, Message cancelled], Exit 1)
      | (events, Unfinished) \<Rightarrow> (events, [Banner], Hang))"

text \<open>
  Lines 209 to 219: an answer wins over the option of the command line, which is read
  when the prompt was skipped.
\<close>

definition answerOr :: "answer option \<Rightarrow> bool option \<Rightarrow> bool" where
  "answerOr v dflt =
     (case v of None \<Rightarrow> truthy dflt | Some (Flag b) \<Rightarrow> b | Some (Text t) \<Rightarrow> t \<noteq> [])"

definition chosenFeatures :: "argv \<Rightarrow> (string \<times> answer) list \<Rightarrow> features" where
  "chosenFeatures a result =
     \<lparr>needsJsx = answerOr (map_of result ''needsJsx'') (argv_jsx a),
      needsTypeScript = answerOr (map_of result ''needsTypeScript'') (argv_ts a),
      needsRouter = answerOr (map_of result ''needsRouter'') (argv_router a),
      needsPinia = answerOr (map_of result ''needsPinia'') (argv_pinia a),
      needsTests = answerOr (map_of result ''needsTests'') (argv_tests a),
      needsEslint = answerOr (map_of result ''needsEslint'')
        (orElse (argv_eslint a) (argv_eslint_with_prettier a)),
      needsPrettier = answerOr (map_of result ''needsPrettier'') (argv_eslint_with_prettier a)\<rparr>"

text \<open>Lines 220 to 226: \<open>shouldOverwrite\<close> is the answer alone, it has no default.\<close>

definition prepareRoot :: "nat \<Rightarrow> pstate \<Rightarrow> node \<Rightarrow> node run" where
  "prepareRoot fuel s fs =
     (let root = relativePath (targetDir s)
      in if answerOr (map_of (answers s) ''shouldOverwrite'') None then emptyDir fuel root fs
         else if \<not> existsSync root fs then mkdirSync root fs
         else Returned fs)"

section \<open>What the clean-up passes are to achieve\<close>

text \<open>
  Stated after the specification, to compare the passes with: a tests directory is a
  directory named \<open>cypress\<close> or \<open>__tests__\<close>; \<open>withoutTests\<close> is the tree without its
  tests directories, everything else kept; \<open>underTests fs p\<close> says that the path \<open>p\<close> leads
  to or through a tests directory of \<open>fs\<close>.
\<close>

definition isTestsDir :: "string \<Rightarrow> node \<Rightarrow> bool" where
  "isTestsDir name n \<longleftrightarrow>
     (name = ''cypress'' \<or> name = ''__tests__'') \<and> (case n of Dir sub \<Rightarrow> True | File c \<Rightarrow> False)"

fun withoutTests :: "node \<Rightarrow> node" where
  "withoutTests (File c) = File c"
| "withoutTests (Dir es) =
     Dir (map (\<lambda>e. (fst e, withoutTests (snd e)))
            (filter (\<lambda>e. \<not> isTestsDir (fst e) (snd e)) es))"

abbreviation kept :: "(string \<times> node) list \<Rightarrow> (string \<times> node) list" where
  "kept es \<equiv> map (\<lambda>e. (fst e, withoutTests (snd e)))
     (filter (\<lambda>e. \<not> isTestsDir (fst e) (snd e)) es)"

fun underTests :: "node \<Rightarrow> path \<Rightarrow> bool" where
  "underTests n [] = False"
| "underTests (File c) (a # p) = False"
| "underTests (Dir es) (a # p) =
     (case map_of es a of None \<Rightarrow> False | Some v \<Rightarrow> isTestsDir a v \<or> underTests v p)"

text \<open>
  For the conversion to TypeScript. The pass stops with \<open>EISDIR\<close> where a file
  \<open>jsconfig.json\<close> has a directory \<open>tsconfig.json\<close> beside it; \<open>noConfigClash\<close> excludes
  that. \<open>converted t t'\<close> relates a tree to its conversion: a file whose name ends in
  \<open>.js\<close> is gone and the \<open>.ts\<close> name beside it holds what was there before or, when
  nothing was there, the content of the file; the other files, the two configuration
  files apart, are as they were. \<open>tsInv\<close> is the invariant of the loop over the listing
  \<open>m0\<close> of one directory, \<open>rest\<close> being the names not yet visited.
\<close>

definition isFileAt :: "(string \<times> node) list \<Rightarrow> string \<Rightarrow> bool" where
  "isFileAt es name \<longleftrightarrow> (case map_of es name of Some (File c) \<Rightarrow> True | _ \<Rightarrow> False)"

definition isDirAt :: "(string \<times> node) list \<Rightarrow> string \<Rightarrow> bool" where
  "isDirAt es name \<longleftrightarrow> (case map_of es name of Some (Dir sub) \<Rightarrow> True | _ \<Rightarrow> False)"

fun noConfigClash :: "node \<Rightarrow> bool" where
  "noConfigClash (File c) = True"
| "noConfigClash (Dir es) =
     (\<not> (isFileAt es ''jsconfig.json'' \<and> isDirAt es ''tsconfig.json'') \<and>
      list_all (\<lambda>e. noConfigClash (snd e)) es)"

abbreviation isJs :: "string \<Rightarrow> bool" where
  "isJs name \<equiv> endsWith name ''.js''"

abbreviation toTs :: "string \<Rightarrow> string" where
  "toTs name \<equiv> replaceSuffix ''.js'' ''.ts'' name"

definition converted :: "node \<Rightarrow> node \<Rightarrow> bool" where
  "converted t t' \<longleftrightarrow>
     (\<forall>es. t = Dir es \<longrightarrow> (\<exists>es'. t' = Dir es')) \<and>
     (\<forall>dir name c. lookup t (dir @ [name]) = Some (File c) \<longrightarrow>
        (isJs name \<longrightarrow>
           lookup t' (dir @ [name]) = None \<and>
           (case lookup t (dir @ [toTs name]) of
              None \<Rightarrow> lookup t' (dir @ [toTs name]) = Some (File c)
            | Some (File c') \<Rightarrow> lookup t' (dir @ [toTs name]) = Some (File c')
            | Some (Dir sub) \<Rightarrow> (\<exists>sub'. lookup t' (dir @ [toTs name]) = Some (Dir sub')))) \<and>
        (\<not> isJs name \<longrightarrow> name \<noteq> ''jsconfig.json'' \<longrightarrow> name \<noteq> ''tsconfig.json'' \<longrightarrow>
           lookup t' (dir @ [name]) = Some (File c)))"

definition tsInv ::
  "(string \<rightharpoonup> node) \<Rightarrow> string list \<Rightarrow> (string \<rightharpoonup> node) \<Rightarrow> bool" where
  "tsInv m0 rest m \<longleftrightarrow>
     (\<forall>y s. m0 y = Some (Dir s) \<longrightarrow>
        (if y \<in> set rest then m y = Some (Dir s)
         else (\<exists>s'. m y = Some s' \<and> converted (Dir s) s'))) \<and>
     (\<forall>y c. m0 y = Some (File c) \<longrightarrow> y \<in> set rest \<longrightarrow> y \<noteq> ''tsconfig.json'' \<longrightarrow>
        m y = Some (File c)) \<and>
     (\<forall>y c. m0 y = Some (File c) \<longrightarrow> \<not> isJs y \<longrightarrow> y \<noteq> ''jsconfig.json'' \<longrightarrow>
        (\<exists>c'. m y = Some (File c') \<and> (y \<noteq> ''tsconfig.json'' \<longrightarrow> c' = c))) \<and>
     (\<forall>y c. m0 y = Some (File c) \<longrightarrow> isJs y \<longrightarrow> y \<notin> set rest \<longrightarrow>
        m y = None \<and> (m0 (toTs y) = None \<longrightarrow> m (toTs y) = Some (File c))) \<and>
     (\<forall>y s. m y = Some (Dir s) \<longrightarrow> (\<exists>s0. m0 y = Some (Dir s0))) \<and>
     (\<forall>y c. m0 y = Some (File c) \<longrightarrow> isJs y \<longrightarrow> y \<in> set rest \<longrightarrow> m0 (toTs y) = None \<longrightarrow>
        m (toTs y) = None)"

section \<open>Notions for the proofs about the traversals\<close>

text \<open>
  \<open>into a es r\<close> puts the tree that \<open>r\<close> returns back under the name \<open>a\<close> of the directory
  \<open>es\<close>. A callback is local when, below a name \<open>a\<close>, it works on the subtree of \<open>a\<close> alone.
\<close>

definition into :: "string \<Rightarrow> (string \<times> node) list \<Rightarrow> node run \<Rightarrow> node run" where
  "into a es r = andThen r (\<lambda>n'. Returned (Dir (AList.update a n' es)))"

definition localCallback :: "callback \<Rightarrow> bool" where
  "localCallback cb \<longleftrightarrow>
     (\<forall>a p es n. map_of es a = Some n \<longrightarrow> p \<noteq> [] \<longrightarrow>
        cb (a # p) (Dir es) = into a es (cb p n))"

section \<open>Properties of the package names\<close>

lemma set_replaceRuns:
  "c \<in> set (replaceRuns C rep s) \<Longrightarrow> c \<in> set rep \<or> (c \<in> set s \<and> \<not> C c)"
  by (induction C rep s rule: replaceRuns.induct)
     (auto split: if_splits dest: set_dropWhileD)

lemma replaceRuns_dash_Nil_iff: "replaceRuns C ''-'' s = [] \<longleftrightarrow> s = []"
  by (cases s) auto

lemma replaceRuns_id: "(\<And>c. c \<in> set s \<Longrightarrow> \<not> C c) \<Longrightarrow> replaceRuns C rep s = s"
  by (induction s) auto

lemma many_all: "(\<And>c. c \<in> set s \<Longrightarrow> C c) \<Longrightarrow> many C atEnd s"
  by (induction s) (auto simp: atEnd_def)

lemma nameFirst_nameRest: "nameFirst c \<Longrightarrow> nameRest c"
  by (auto simp: nameFirst_def nameRest_def)

lemma nameFirst_not_space: "nameFirst c \<Longrightarrow> \<not> isWhiteSpace c"
  by (auto simp: nameFirst_def lowerDigit_def isWhiteSpace_def)

lemma nameFirst_lower: "nameFirst c \<Longrightarrow> lowerChar c = c"
  by (auto simp: nameFirst_def lowerDigit_def lowerChar_def)

lemma nameFirst_not_dot: "nameFirst c \<Longrightarrow> c \<noteq> CHR ''.'' \<and> c \<noteq> CHR ''_''"
  by (auto simp: nameFirst_def lowerDigit_def)

lemma isValid_nonempty: "isValidPackageName s \<Longrightarrow> s \<noteq> []"
  by (auto simp: isValidPackageName_def unscopedName_def)

lemma isValid_plain:
  assumes "s \<noteq> []" "\<And>c. c \<in> set s \<Longrightarrow> nameFirst c"
  shows "isValidPackageName s"
proof (cases s)
  case Nil
  with assms show ?thesis by simp
next
  case (Cons c cs)
  have "many nameRest atEnd cs"
    by (rule many_all) (simp add: Cons assms(2) nameFirst_nameRest)
  with Cons assms(2) show ?thesis
    by (simp add: isValidPackageName_def unscopedName_def)
qed

lemma toValid_chars: "c \<in> set (toValidPackageName s) \<Longrightarrow> nameFirst c"
  unfolding toValidPackageName_def
  by (auto dest!: set_replaceRuns simp: nameFirst_def)

text \<open>Lower-casing reaches no code unit below \<open>a\<close> from another one.\<close>

lemma lowerChar_eq_iff:
  assumes "of_char d < (97::nat)"
  shows "lowerChar c = d \<longleftrightarrow>
    c = d \<and> \<not> (65 \<le> (of_char d::nat) \<and> of_char d \<le> (90::nat))"
proof (cases "(65 \<le> (of_char c::nat) \<and> (of_char c::nat) \<le> 90) \<or>
    (192 \<le> (of_char c::nat) \<and> (of_char c::nat) \<le> 222 \<and> (of_char c::nat) \<noteq> 215)")
  case True
  then have low: "lowerChar c = char_of (of_char c + 32 :: nat)"
    unfolding lowerChar_def Let_def by (rule if_P)
  have "(of_char (lowerChar c) :: nat) = (of_char c + 32) mod 256"
    unfolding low by simp
  with True have "(of_char (lowerChar c) :: nat) = of_char c + 32"
    by auto
  with True assms show ?thesis by auto
next
  case False
  then have "lowerChar c = c"
    unfolding lowerChar_def Let_def by (rule if_not_P)
  with False show ?thesis by auto
qed

lemma lowerChar_eq_dot: "lowerChar c = CHR ''.'' \<longleftrightarrow> c = CHR ''.''"
  by (subst lowerChar_eq_iff) simp_all

lemma lowerChar_eq_underscore: "lowerChar c = CHR ''_'' \<longleftrightarrow> c = CHR ''_''"
  by (subst lowerChar_eq_iff) simp_all

lemma toLowerCase_special:
  "toLowerCase s \<in> {[], ''.'', ''_''} \<longleftrightarrow> s \<in> {[], ''.'', ''_''}"
  by (cases s) (auto simp: toLowerCase_def lowerChar_eq_dot lowerChar_eq_underscore)

lemma replaceSpaces_special:
  "replaceRuns isWhiteSpace ''-'' s \<in> {[], ''.'', ''_''} \<longleftrightarrow> s \<in> {[], ''.'', ''_''}"
  by (cases s) (auto simp: replaceRuns_dash_Nil_iff isWhiteSpace_def split: if_splits)

lemma stripLeading_Nil_iff: "stripLeading s = [] \<longleftrightarrow> s \<in> {[], ''.'', ''_''}"
  by (cases s) auto

lemma toValid_Nil_iff: "toValidPackageName s = [] \<longleftrightarrow> trim s \<in> {[], ''.'', ''_''}"
  unfolding toValidPackageName_def
  by (simp only: replaceRuns_dash_Nil_iff stripLeading_Nil_iff
      replaceSpaces_special toLowerCase_special)

lemma dropWhile_none: "(\<And>c. c \<in> set s \<Longrightarrow> \<not> P c) \<Longrightarrow> dropWhile P s = s"
  by (cases s) auto

lemma trim_id:
  assumes "\<And>c. c \<in> set s \<Longrightarrow> \<not> isWhiteSpace c"
  shows "trim s = s"
proof -
  have "dropWhile isWhiteSpace s = s"
    by (rule dropWhile_none) (rule assms)
  moreover have "dropWhile isWhiteSpace (rev s) = rev s"
    by (rule dropWhile_none) (simp add: assms)
  ultimately show ?thesis
    by (simp add: trim_def)
qed

lemma stripLeading_id: "(\<And>c. c \<in> set s \<Longrightarrow> nameFirst c) \<Longrightarrow> stripLeading s = s"
  by (cases s) (auto dest: nameFirst_not_dot)

lemma toValid_fixed:
  assumes "\<And>c. c \<in> set s \<Longrightarrow> nameFirst c"
  shows "toValidPackageName s = s"
proof -
  have "trim s = s"
    by (rule trim_id) (simp add: assms nameFirst_not_space)
  moreover have "toLowerCase s = s"
    unfolding toLowerCase_def by (rule map_idI) (simp add: assms nameFirst_lower)
  moreover have "replaceRuns isWhiteSpace ''-'' s = s"
    by (rule replaceRuns_id) (simp add: assms nameFirst_not_space)
  moreover have "stripLeading s = s"
    by (rule stripLeading_id) (rule assms)
  moreover have "replaceRuns (\<lambda>c. \<not> nameFirst c) ''-'' s = s"
    by (rule replaceRuns_id) (simp add: assms)
  ultimately show ?thesis
    by (simp add: toValidPackageName_def)
qed

text \<open>
  Claim C3, as the code has it: \<open>isValidPackageName("my-app")\<close> is true,
  \<open>isValidPackageName("My App")\<close> is false, and \<open>toValidPackageName("My App!!")\<close> is
  \<open>"my-app-"\<close>, with one hyphen at the end: the two exclamation marks are one run of
  disallowed characters, and a run is replaced by a single hyphen.
\<close>

theorem packageName_examples:
  "isValidPackageName ''my-app'' \<and> \<not> isValidPackageName ''My App'' \<and>
   toValidPackageName ''My App!!'' = ''my-app-''"
  by code_simp

text \<open>
  Claim C3 as the specification states it, with \<open>"my-app--"\<close> for the third value, does
  not hold.
\<close>

theorem packageName_examples_as_stated_fail:
  "\<not> (isValidPackageName ''my-app'' \<and> \<not> isValidPackageName ''My App'' \<and>
      toValidPackageName ''My App!!'' = ''my-app--'')"
  by code_simp

text \<open>
  Claim C4, amended: the output of \<open>toValidPackageName\<close> satisfies \<open>isValidPackageName\<close>
  exactly when the trimmed input is neither empty nor a single dot nor a single
  underscore; for those three the output is the empty string, which is not a valid name.
\<close>

theorem toValidPackageName_valid_iff:
  "isValidPackageName (toValidPackageName s) \<longleftrightarrow> trim s \<notin> {[], ''.'', ''_''}"
proof -
  have "isValidPackageName (toValidPackageName s) \<longleftrightarrow> toValidPackageName s \<noteq> []"
    using isValid_nonempty isValid_plain toValid_chars by blast
  then show ?thesis
    by (simp only: toValid_Nil_iff)
qed

text \<open>
  Claim C4 as stated, for every input string, fails: a single dot is normalised to the
  empty string.
\<close>

theorem toValidPackageName_not_always_valid:
  "\<not> (\<forall>s. isValidPackageName (toValidPackageName s))"
proof
  assume "\<forall>s. isValidPackageName (toValidPackageName s)"
  then have "isValidPackageName (toValidPackageName ''.'')" by blast
  then show False by code_simp
qed

text \<open>
  Claim C5: \<open>toValidPackageName\<close> is idempotent; applied to its own output it returns
  that output.
\<close>

theorem toValidPackageName_idempotent:
  "toValidPackageName (toValidPackageName s) = toValidPackageName s"
  by (rule toValid_fixed) (rule toValid_chars)

section \<open>Properties of the rendered templates\<close>

lemma codeTemplate_cases:
  "codeTemplate f \<in> {''default'', ''router'', ''typescript-default'', ''typescript-router''}"
  by (simp add: codeTemplate_def)

lemma code_rendered_once:
  "filter (rendersUnder ''code/'') (renderings f) = [Render (''code/'' @ codeTemplate f)]"
  by (simp add: renderings_def entryTemplate_def)

lemma entry_rendered_once:
  "filter (rendersUnder ''entry/'') (renderings f) = [Render (''entry/'' @ entryTemplate f)]"
  by (simp add: renderings_def codeTemplate_def)

lemma range_codeTemplate:
  "range (codeTemplate :: features \<Rightarrow> string) =
     {''default'', ''router'', ''typescript-default'', ''typescript-router''}"
proof
  show "range (codeTemplate :: features \<Rightarrow> string)
      \<subseteq> {''default'', ''router'', ''typescript-default'', ''typescript-router''}"
    using codeTemplate_cases by blast
next
  define f :: "bool \<Rightarrow> bool \<Rightarrow> features" where
   "f t r = \<lparr>needsJsx = False, needsTypeScript = t, needsRouter = r, needsPinia = False,
           needsTests = False, needsEslint = False, needsPrettier = False\<rparr>" for t r
  have "codeTemplate (f False False) = ''default''"
    "codeTemplate (f False True) = ''router''"
    "codeTemplate (f True False) = ''typescript-default''"
    "codeTemplate (f True True) = ''typescript-router''"
    by (simp_all add: f_def codeTemplate_def)
  then show "{''default'', ''router'', ''typescript-default'', ''typescript-router''}
      \<subseteq> range (codeTemplate :: features \<Rightarrow> string)"
    by (metis insert_subset empty_subsetI rangeI)
qed

text \<open>
  Claim C6: whatever the flags, the templates rendered hold exactly one under \<open>code/\<close>;
  its name is the prefix \<open>typescript-\<close>, present exactly when TypeScript is chosen,
  followed by \<open>router\<close> when the router is chosen and by \<open>default\<close> otherwise. The name
  takes exactly four values, and with TypeScript and the router it is
  \<open>typescript-router\<close>.
\<close>

theorem codeTemplate_variant:
  "filter (rendersUnder ''code/'') (renderings f) = [Render (''code/'' @ codeTemplate f)] \<and>
   codeTemplate f =
     (if needsTypeScript f then ''typescript-'' else '''') @
     (if needsRouter f then ''router'' else ''default'') \<and>
   range (codeTemplate :: features \<Rightarrow> string) =
     {''default'', ''router'', ''typescript-default'', ''typescript-router''} \<and>
   card (range (codeTemplate :: features \<Rightarrow> string)) = 4 \<and>
   codeTemplate (f\<lparr>needsTypeScript := True, needsRouter := True\<rparr>) = ''typescript-router''"
proof -
  have "card (range (codeTemplate :: features \<Rightarrow> string)) = 4"
    unfolding range_codeTemplate by simp
  then show ?thesis
    using code_rendered_once [of f] range_codeTemplate
    by (simp add: codeTemplate_def)
qed

text \<open>
  Claim C7: whatever the flags, the templates rendered hold exactly one under \<open>entry/\<close>,
  chosen by the first condition that holds: Pinia and the router give
  \<open>router-and-pinia\<close>, Pinia alone \<open>pinia\<close>, the router alone \<open>router\<close>, neither
  \<open>default\<close>. Without TypeScript and the router and with Pinia the entry variant is
  \<open>pinia\<close> and the code variant is \<open>default\<close>.
\<close>

theorem entryTemplate_variant:
  "filter (rendersUnder ''entry/'') (renderings f) = [Render (''entry/'' @ entryTemplate f)] \<and>
   entryTemplate f =
     (if needsPinia f \<and> needsRouter f then ''router-and-pinia''
      else if needsPinia f then ''pinia''
      else if needsRouter f then ''router''
      else ''default'') \<and>
   entryTemplate (f\<lparr>needsPinia := True, needsRouter := True\<rparr>) = ''router-and-pinia'' \<and>
   entryTemplate (f\<lparr>needsPinia := True, needsRouter := False\<rparr>) = ''pinia'' \<and>
   entryTemplate (f\<lparr>needsPinia := False, needsRouter := True\<rparr>) = ''router'' \<and>
   entryTemplate (f\<lparr>needsPinia := False, needsRouter := False\<rparr>) = ''default'' \<and>
   entryTemplate (f\<lparr>needsTypeScript := False, needsRouter := False, needsPinia := True\<rparr>)
     = ''pinia'' \<and>
   codeTemplate (f\<lparr>needsTypeScript := False, needsRouter := False, needsPinia := True\<rparr>)
     = ''default''"
  using entry_rendered_once [of f]
  by (simp add: codeTemplate_def entryTemplate_def)

section \<open>Properties of the prompts\<close>

lemma prompts_event_names:
  "prompts u qs s = (events, r) \<Longrightarrow> eventName ` set events \<subseteq> qname ` set qs"
proof (induction qs arbitrary: s events r)
  case Nil
  then show ?case by simp
next
  case (Cons q qs)
  show ?case
  proof (cases "qtype q s")
    case (Returned t)
    show ?thesis
    proof (cases t)
      case None
      with Returned Cons.prems have "prompts u qs s = (events, r)" by simp
      from Cons.IH [OF this] show ?thesis by auto
    next
      case (Some ty)
      show ?thesis
      proof (cases "askUser u q ty s")
        case None
        with Returned Some Cons.prems show ?thesis by auto
      next
        case (Some as)
        obtain a s' where as: "as = (a, s')" by (cases as)
        obtain evs r' where rec:
          "prompts u qs (s'\<lparr>answers := answers s' @ [(qname q, a)]\<rparr>) = (evs, r')"
          by (cases "prompts u qs (s'\<lparr>answers := answers s' @ [(qname q, a)]\<rparr>)")
        with Returned \<open>t = Some ty\<close> Some as Cons.prems
        have "events = Answered (qname q) a # evs" by simp
        with Cons.IH [OF rec] show ?thesis by auto
      qed
    qed
  next
    case (Thrown e)
    with Cons.prems show ?thesis by auto
  next
    case Unfinished
    with Cons.prems show ?thesis by auto
  qed
qed

lemma prompts_interrupted:
  "prompts u qs s = (events, r) \<Longrightarrow> Interrupted name \<in> set events \<Longrightarrow>
   r = Thrown OperationCancelled"
proof (induction qs arbitrary: s events r)
  case Nil
  then show ?case by simp
next
  case (Cons q qs)
  then show ?case
    by (auto split: run.splits option.splits prod.splits)
qed

lemma askUser_answers:
  "askUser u q ty s = Some (a, s') \<Longrightarrow> (\<And>v s. answers (qonState q v s) = answers s) \<Longrightarrow>
   answers s' = answers s"
  by (cases ty) (auto split: option.splits)

lemma prompts_not_asked:
  "prompts u qs s = (events, r) \<Longrightarrow> name \<notin> qname ` set qs \<Longrightarrow> Answered name a \<notin> set events"
  using prompts_event_names [of u qs s events r] by force

lemma prompts_declined:
  assumes run: "prompts u (questions a fs) s = (events, r)"
    and fresh: "answers s = []"
    and declined: "Answered ''shouldOverwrite'' (Flag False) \<in> set events"
  shows "r = Thrown OperationCancelled"
proof -
  obtain q1 q2 q3 rest where qs: "questions a fs = q1 # q2 # q3 # rest"
    and q1: "qname q1 = ''projectName''" "\<And>v s. answers (qonState q1 v s) = answers s"
    and q2: "qname q2 = ''shouldOverwrite''" "\<And>v s. answers (qonState q2 v s) = answers s"
    and q3: "qname q3 = ''overwriteChecker''"
      "\<And>s. qtype q3 s = (if map_of (answers s) ''shouldOverwrite'' = Some (Flag False)
          then Thrown OperationCancelled else Returned None)"
    and rest: "''shouldOverwrite'' \<notin> qname ` set rest"
    by (simp add: questions_def featureToggle_def)
  have from3: "r' = Thrown OperationCancelled"
    if "prompts u (q3 # rest) s' = (evs, r')"
      and "map_of (answers s') ''shouldOverwrite'' = Some (Flag False) \<or>
           Answered ''shouldOverwrite'' (Flag False) \<in> set evs" for s' evs r'
    using that q3 rest prompts_not_asked [of u rest s' evs r' "''shouldOverwrite''" "Flag False"]
    by (auto split: if_splits)
  have from2: "r' = Thrown OperationCancelled"
    if "prompts u (q2 # q3 # rest) s' = (evs, r')"
      and "map_of (answers s') ''shouldOverwrite'' = None"
      and "Answered ''shouldOverwrite'' (Flag False) \<in> set evs" for s' evs r'
  proof (cases "qtype q2 s'")
    case (Returned t)
    show ?thesis
    proof (cases t)
      case None
      with Returned that from3 show ?thesis by auto
    next
      case (Some ty)
      show ?thesis
      proof (cases "askUser u q2 ty s'")
        case None
        with Returned Some that show ?thesis by auto
      next
        case (Some as)
        obtain b s'' where as: "as = (b, s'')" by (cases as)
        with Some q2 have same: "answers s'' = answers s'"
          using askUser_answers by blast
        obtain evs' r'' where rec:
          "prompts u (q3 # rest) (s''\<lparr>answers := answers s'' @ [(qname q2, b)]\<rparr>) = (evs', r'')"
          by (cases "prompts u (q3 # rest) (s''\<lparr>answers := answers s'' @ [(qname q2, b)]\<rparr>)")
        with Returned \<open>t = Some ty\<close> Some as that(1)
        have evs: "evs = Answered (qname q2) b # evs'" and r: "r' = r''" by simp_all
        from that(3) evs q2 have "b = Flag False \<or> Answered ''shouldOverwrite'' (Flag False) \<in> set evs'"
          by auto
        moreover have "b = Flag False \<Longrightarrow>
          map_of (answers (s''\<lparr>answers := answers s'' @ [(qname q2, b)]\<rparr>)) ''shouldOverwrite'' = Some (Flag False)"
          using that(2) same q2 by (simp add: map_add_def[symmetric] map_add_Some_iff)
        ultimately show ?thesis using from3 [OF rec] r by blast
      qed
    qed
  next
    case (Thrown e)
    with that show ?thesis by auto
  next
    case Unfinished
    with that show ?thesis by auto
  qed
  show ?thesis
  proof (cases "qtype q1 s")
    case (Returned t)
    show ?thesis
    proof (cases t)
      case None
      with Returned run qs fresh declined from2 [of s events r] show ?thesis by auto
    next
      case (Some ty)
      show ?thesis
      proof (cases "askUser u q1 ty s")
        case None
        with Returned Some run qs declined show ?thesis by auto
      next
        case (Some as)
        obtain b s'' where as: "as = (b, s'')" by (cases as)
        with Some q1 have same: "answers s'' = answers s"
          using askUser_answers by blast
        obtain evs' r'' where rec:
          "prompts u (q2 # q3 # rest) (s''\<lparr>answers := answers s'' @ [(qname q1, b)]\<rparr>) = (evs', r'')"
          by (cases "prompts u (q2 # q3 # rest) (s''\<lparr>answers := answers s'' @ [(qname q1, b)]\<rparr>)")
        with Returned \<open>t = Some ty\<close> Some as run qs
        have evs: "events = Answered (qname q1) b # evs'" and r: "r = r''" by simp_all
        with declined q1 have "Answered ''shouldOverwrite'' (Flag False) \<in> set evs'" by auto
        moreover have "map_of (answers (s''\<lparr>answers := answers s'' @ [(qname q1, b)]\<rparr>)) ''shouldOverwrite'' = None"
          using same fresh q1 by simp
        ultimately show ?thesis using from2 [OF rec] r by blast
      qed
    qed
  next
    case (Thrown e)
    with run qs declined show ?thesis by auto
  next
    case Unfinished
    with run qs declined show ?thesis by auto
  qed
qed

text \<open>
  Claim C10: when the user refuses the overwrite confirmation, or interrupts any prompt
  that is shown, the program logs the banner and the cancellation message, nothing else,
  and exits with status 1.
\<close>

theorem cancellation_exits_with_notice:
  assumes "askQuestions a fs u = (events, out, st)"
    and "Answered ''shouldOverwrite'' (Flag False) \<in> set events \<or>
         (\<exists>name. Interrupted name \<in> set events)"
  shows "out = [Banner, Message OperationCancelled] \<and> st = Exit 1"
proof -
  define s0 where "s0 = \<lparr>targetDir = (case argv_positional a of None \<Rightarrow> [] | Some dir \<Rightarrow> dir),
              answers = []\<rparr>"
  obtain evs r where run: "prompts u (questions a fs) s0 = (evs, r)"
    by (cases "prompts u (questions a fs) s0")
  with assms(1) have ev: "events = evs"
    by (auto simp: askQuestions_def s0_def split: run.splits)
  have "r = Thrown OperationCancelled"
    using assms(2) ev prompts_declined [OF run] prompts_interrupted [OF run]
    by (auto simp: s0_def)
  with run assms(1) show ?thesis
    by (auto simp: askQuestions_def s0_def)
qed

theorem cancellation_exits_with_notice_witness:
  "askQuestions
     \<lparr>argv_positional = Some ''demo'', argv_default = None, argv_ts = None, argv_jsx = None,
       argv_router = None, argv_pinia = None, argv_tests = None, argv_eslint = None,
       argv_eslint_with_prettier = None, argv_force = None\<rparr>
     (Dir [(''demo'', Dir [(''old.txt'', File ''kept'')])])
     \<lparr>typed = (\<lambda>name. []), chosen = (\<lambda>name. Some False)\<rparr>
   = ([Answered ''shouldOverwrite'' (Flag False)], [Banner, Message OperationCancelled], Exit 1)
   \<and> Answered ''shouldOverwrite'' (Flag False) \<in> set [Answered ''shouldOverwrite'' (Flag False)]"
proof -
  have run: "askQuestions
     \<lparr>argv_positional = Some ''demo'', argv_default = None, argv_ts = None, argv_jsx = None,
       argv_router = None, argv_pinia = None, argv_tests = None, argv_eslint = None,
       argv_eslint_with_prettier = None, argv_force = None\<rparr>
     (Dir [(''demo'', Dir [(''old.txt'', File ''kept'')])])
     \<lparr>typed = (\<lambda>name. []), chosen = (\<lambda>name. Some False)\<rparr>
   = ([Answered ''shouldOverwrite'' (Flag False)],
      fst (snd (askQuestions
     \<lparr>argv_positional = Some ''demo'', argv_default = None, argv_ts = None, argv_jsx = None,
       argv_router = None, argv_pinia = None, argv_tests = None, argv_eslint = None,
       argv_eslint_with_prettier = None, argv_force = None\<rparr>
     (Dir [(''demo'', Dir [(''old.txt'', File ''kept'')])])
     \<lparr>typed = (\<lambda>name. []), chosen = (\<lambda>name. Some False)\<rparr>)),
      snd (snd (askQuestions
     \<lparr>argv_positional = Some ''demo'', argv_default = None, argv_ts = None, argv_jsx = None,
       argv_router = None, argv_pinia = None, argv_tests = None, argv_eslint = None,
       argv_eslint_with_prettier = None, argv_force = None\<rparr>
     (Dir [(''demo'', Dir [(''old.txt'', File ''kept'')])])
     \<lparr>typed = (\<lambda>name. []), chosen = (\<lambda>name. Some False)\<rparr>)))"
    by code_simp
  have declined: "Answered ''shouldOverwrite'' (Flag False)
      \<in> set [Answered ''shouldOverwrite'' (Flag False)] \<or>
    (\<exists>name. Interrupted name \<in> set [Answered ''shouldOverwrite'' (Flag False)])"
    by simp
  from cancellation_exits_with_notice [OF run declined] run show ?thesis
    by simp
qed

text \<open>The seven options that the chain reads do switch the feature prompts off.\<close>

lemma prompts_skipped_tail:
  assumes "\<And>q s. q \<in> set later \<Longrightarrow> qtype q s = Returned None"
  shows "prompts u (qs @ later) s = prompts u qs s"
proof (induction qs arbitrary: s)
  case Nil
  from assms show ?case
    by (induction later) simp_all
next
  case (Cons q qs)
  then show ?case
    by (simp split: run.splits option.splits prod.splits)
qed

lemma isFeatureFlagsUsed_iff:
  "isFeatureFlagsUsed a \<longleftrightarrow>
     truthy (argv_default a) \<or> truthy (argv_ts a) \<or> truthy (argv_jsx a) \<or>
     truthy (argv_router a) \<or> truthy (argv_pinia a) \<or> truthy (argv_tests a) \<or>
     argv_eslint a \<noteq> None"
  by (auto simp: isFeatureFlagsUsed_def orElse_def truthy_def)

lemma feature_prompts_skipped:
  assumes used: "isFeatureFlagsUsed a" and run: "askQuestions a fs u = (events, out, st)"
  shows "eventName ` set events
    \<subseteq> {''projectName'', ''shouldOverwrite'', ''overwriteChecker'', ''packageName''}"
proof -
  define s0 where "s0 = \<lparr>targetDir = (case argv_positional a of None \<Rightarrow> [] | Some dir \<Rightarrow> dir),
              answers = []\<rparr>"
  obtain first later where split: "questions a fs = first @ later"
    and first: "qname ` set first
      = {''projectName'', ''shouldOverwrite'', ''overwriteChecker'', ''packageName''}"
    and later: "\<And>q s. q \<in> set later \<Longrightarrow> qtype q s = Returned None"
  proof
    show "questions a fs = take 4 (questions a fs) @ drop 4 (questions a fs)" by simp
    show "qname ` set (take 4 (questions a fs))
      = {''projectName'', ''shouldOverwrite'', ''overwriteChecker'', ''packageName''}"
      by (auto simp: questions_def)
    show "qtype q s = Returned None" if "q \<in> set (drop 4 (questions a fs))" for q s
      using that used by (auto simp: questions_def featureToggle_def)
  qed
  obtain evs r where p: "prompts u (questions a fs) s0 = (evs, r)"
    by (cases "prompts u (questions a fs) s0")
  with run have "events = evs"
    by (auto simp: askQuestions_def s0_def split: run.splits)
  moreover from p split prompts_skipped_tail [of later u first s0, OF later]
  have "prompts u first s0 = (evs, r)" by simp
  from prompts_event_names [OF this] first have "eventName ` set evs
    \<subseteq> {''projectName'', ''shouldOverwrite'', ''overwriteChecker'', ''packageName''}"
    by simp
  ultimately show ?thesis by simp
qed

text \<open>
  Claim C2 at \<open>--eslint-with-prettier\<close> given alone (with the target \<open>demo\<close>, to a user
  who answers No everywhere): the option is not among those that \<open>isFeatureFlagsUsed\<close>
  reads, so the feature prompts are shown all the same, and the answer to the ESLint
  prompt overrides the option.
\<close>

theorem eslint_with_prettier_alone_is_prompted:
  "\<not> isFeatureFlagsUsed
      \<lparr>argv_positional = Some ''demo'', argv_default = None, argv_ts = None, argv_jsx = None,
       argv_router = None, argv_pinia = None, argv_tests = None, argv_eslint = None,
       argv_eslint_with_prettier = Some True, argv_force = None\<rparr> \<and>
   askQuestions
     \<lparr>argv_positional = Some ''demo'', argv_default = None, argv_ts = None, argv_jsx = None,
       argv_router = None, argv_pinia = None, argv_tests = None, argv_eslint = None,
       argv_eslint_with_prettier = Some True, argv_force = None\<rparr>
     (Dir [])
     \<lparr>typed = (\<lambda>name. []), chosen = (\<lambda>name. Some False)\<rparr>
   = ([Answered ''needsTypeScript'' (Flag False), Answered ''needsJsx'' (Flag False),
       Answered ''needsRouter'' (Flag False), Answered ''needsPinia'' (Flag False),
       Answered ''needsTests'' (Flag False), Answered ''needsEslint'' (Flag False)],
      [Banner],
      Proceed \<lparr>targetDir = ''demo'',
        answers = [(''needsTypeScript'', Flag False), (''needsJsx'', Flag False),
          (''needsRouter'', Flag False), (''needsPinia'', Flag False),
          (''needsTests'', Flag False), (''needsEslint'', Flag False)]\<rparr>) \<and>
   chosenFeatures
     \<lparr>argv_positional = Some ''demo'', argv_default = None, argv_ts = None, argv_jsx = None,
       argv_router = None, argv_pinia = None, argv_tests = None, argv_eslint = None,
       argv_eslint_with_prettier = Some True, argv_force = None\<rparr>
     [(''needsTypeScript'', Flag False), (''needsJsx'', Flag False),
      (''needsRouter'', Flag False), (''needsPinia'', Flag False),
      (''needsTests'', Flag False), (''needsEslint'', Flag False)]
   = \<lparr>needsJsx = False, needsTypeScript = False, needsRouter = False, needsPinia = False,
      needsTests = False, needsEslint = False, needsPrettier = True\<rparr>"
  by code_simp

section \<open>Locality of the file operations\<close>

lemma into_simps [simp]:
  "into a es (Returned n') = Returned (Dir (AList.update a n' es))"
  "into a es (Thrown e) = Thrown e"
  "into a es Unfinished = Unfinished"
  by (simp_all add: into_def)

lemma andThen_assoc: "andThen (andThen r f) g = andThen r (\<lambda>x. andThen (f x) g)"
  by (cases r) simp_all

lemma andThen_into:
  "andThen (into a es r) f = andThen r (\<lambda>n'. f (Dir (AList.update a n' es)))"
  by (cases r) simp_all

lemma into_andThen:
  "into a es (andThen r f) = andThen r (\<lambda>x. into a es (f x))"
  by (cases r) simp_all

lemma into_update: "into a (AList.update a n es) r = into a es r"
  by (cases r) simp_all

lemma into_same: "map_of es a = Some n \<Longrightarrow> into a es (Returned n) = Returned (Dir es)"
  by (simp add: AList.update_triv)

lemma dirname_Cons: "p \<noteq> [] \<Longrightarrow> dirname (a # p) = a # dirname p"
  by (simp add: dirname_def)

lemma basename_Cons: "p \<noteq> [] \<Longrightarrow> basename (a # p) = basename p"
  by (cases p rule: rev_cases) (simp_all add: basename_def)

lemma basename_snoc [simp]: "basename (p @ [x]) = x"
  by (simp add: basename_def)

lemma dirname_snoc [simp]: "dirname (p @ [x]) = p"
  by (simp add: dirname_def)

lemma lookup_Cons: "map_of es a = Some n \<Longrightarrow> lookup (Dir es) (a # p) = lookup n p"
  by simp

lemma existsSync_Cons:
  "map_of es a = Some n \<Longrightarrow> existsSync (a # p) (Dir es) = existsSync p n"
  by (simp add: existsSync_def)

lemma isDirectory_Cons:
  "map_of es a = Some n \<Longrightarrow> isDirectory (a # p) (Dir es) = isDirectory p n"
  by (simp add: isDirectory_def)

lemma readdirSync_Cons:
  "map_of es a = Some n \<Longrightarrow> readdirSync (a # p) (Dir es) = readdirSync p n"
  by (simp add: readdirSync_def)

lemma inDir_Cons:
  "map_of es a = Some n \<Longrightarrow> inDir (a # p) f (Dir es) = into a es (inDir p f n)"
  by (simp add: into_def)

lemma unlinkSync_Cons:
  assumes "map_of es a = Some n" "p \<noteq> []"
  shows "unlinkSync (a # p) (Dir es) = into a es (unlinkSync p n)"
proof -
  have b: "basename (a # p) = basename p" and d: "dirname (a # p) = a # dirname p"
    using assms(2) by (simp_all add: basename_Cons dirname_Cons)
  show ?thesis
    unfolding unlinkSync_def b d using assms by (simp add: inDir_Cons del: inDir.simps)
qed

lemma rmdirSync_Cons:
  assumes "map_of es a = Some n" "p \<noteq> []"
  shows "rmdirSync (a # p) (Dir es) = into a es (rmdirSync p n)"
proof -
  have b: "basename (a # p) = basename p" and d: "dirname (a # p) = a # dirname p"
    using assms(2) by (simp_all add: basename_Cons dirname_Cons)
  show ?thesis
    unfolding rmdirSync_def b d using assms by (simp add: inDir_Cons del: inDir.simps)
qed

lemma move_Cons:
  assumes "map_of es a = Some n"
  shows "andThen (inDir (a # p) f (Dir es)) (inDir (a # q) g)
    = into a es (andThen (inDir p f n) (inDir q g))"
proof (cases "inDir p f n")
  case (Returned n')
  have "map_of (AList.update a n' es) a = Some n'"
    by (simp add: AList.update_conv')
  with assms Returned show ?thesis
    by (simp add: inDir_Cons into_update del: inDir.simps)
qed (use assms in \<open>simp_all add: inDir_Cons del: inDir.simps\<close>)

lemma renameSync_Cons:
  assumes "map_of es a = Some n" "p \<noteq> []" "q \<noteq> []"
  shows "renameSync (a # p) (a # q) (Dir es) = into a es (renameSync p q n)"
proof (cases "lookup n p")
  case None
  with assms show ?thesis by (simp add: renameSync_def)
next
  case (Some m)
  show ?thesis
  proof (cases "p = q")
    case True
    with assms Some show ?thesis
      by (simp add: renameSync_def AList.update_triv)
  next
    case False
    have b: "basename (a # p) = basename p" "basename (a # q) = basename q"
      and d: "dirname (a # p) = a # dirname p" "dirname (a # q) = a # dirname q"
      using assms(2,3) by (simp_all add: basename_Cons dirname_Cons)
    show ?thesis
      unfolding renameSync_def b d using assms Some False
      by (simp add: move_Cons split: node.splits option.splits list.splits del: inDir.simps)
  qed
qed

lemma local_noop: "localCallback noop"
  by (simp add: localCallback_def noop_def AList.update_triv)

lemma local_unlinkSync: "localCallback unlinkSync"
  by (simp add: localCallback_def unlinkSync_Cons)

lemma local_rmdirSync: "localCallback rmdirSync"
  by (simp add: localCallback_def rmdirSync_Cons)

lemma local_tsFileCallback: "localCallback tsFileCallback"
  unfolding localCallback_def
proof (intro allI impI)
  fix a :: string and p :: path and es :: "(string \<times> node) list" and n :: node
  assume n: "map_of es a = Some n" and p: "p \<noteq> []"
  have b: "basename (a # p) = basename p"
    and d: "\<And>x. dirname (a # p) @ [x] = a # (dirname p @ [x])"
    using p by (simp_all add: basename_Cons dirname_Cons)
  show "tsFileCallback (a # p) (Dir es) = into a es (tsFileCallback p n)"
    unfolding tsFileCallback_def Let_def b d using n p
    by (simp add: existsSync_Cons unlinkSync_Cons renameSync_Cons AList.update_triv)
qed

lemma map_of_update_same: "map_of (AList.update a n es) a = Some n"
  by (simp add: AList.update_conv')

lemma andThen_local:
  assumes "\<And>es n. map_of es a = Some n \<Longrightarrow> E (Dir es) = into a es (E' n)"
  shows "andThen (into a es r) E = into a es (andThen r E')"
proof (cases r)
  case (Returned n')
  then show ?thesis
    using assms [OF map_of_update_same [of a n' es]] by (simp add: into_update)
qed simp_all

lemma preOrderEntries_local:
  assumes trav: "\<And>p es n. map_of es a = Some n \<Longrightarrow>
      preOrderDirectoryTraverse k (a # p) dcb fcb (Dir es)
        = into a es (preOrderDirectoryTraverse k p dcb fcb n)"
    and dcb: "localCallback dcb" and fcb: "localCallback fcb"
  shows "map_of es a = Some n \<Longrightarrow>
    preOrderEntries k (a # p) names dcb fcb (Dir es)
      = into a es (preOrderEntries k p names dcb fcb n)"
proof (induction names arbitrary: es n)
  case Nil
  then show ?case by (simp add: AList.update_triv)
next
  case (Cons x rest)
  let ?E = "preOrderEntries k (a # p) rest dcb fcb"
  let ?E' = "preOrderEntries k p rest dcb fcb"
  let ?G = "\<lambda>fs'. andThen
     (if existsSync (a # p @ [x]) fs' then preOrderDirectoryTraverse k (a # p @ [x]) dcb fcb fs'
      else Returned fs') ?E"
  let ?G' = "\<lambda>fs'. andThen
     (if existsSync (p @ [x]) fs' then preOrderDirectoryTraverse k (p @ [x]) dcb fcb fs'
      else Returned fs') ?E'"
  have G: "?G (Dir es') = into a es' (?G' n')" if "map_of es' a = Some n'" for es' n'
    using that Cons.IH [OF that] andThen_local [of a ?E ?E', OF Cons.IH]
    by (simp add: existsSync_Cons trav)
  have d: "andThen (dcb (a # p @ [x]) (Dir es)) ?G = into a es (andThen (dcb (p @ [x]) n) ?G')"
    using dcb Cons.prems andThen_local [of a ?G ?G', OF G]
    by (simp add: localCallback_def)
  have f: "andThen (fcb (a # p @ [x]) (Dir es)) ?E = into a es (andThen (fcb (p @ [x]) n) ?E')"
    using fcb Cons.prems andThen_local [of a ?E ?E', OF Cons.IH]
    by (simp add: localCallback_def)
  show ?case
    unfolding preOrderEntries.simps append_Cons using Cons.prems d f
    by (cases "isDirectory (p @ [x]) n") (simp_all add: isDirectory_Cons)
qed

lemma preOrderDirectoryTraverse_local:
  assumes "localCallback dcb" "localCallback fcb"
  shows "map_of es a = Some n \<Longrightarrow>
    preOrderDirectoryTraverse k (a # p) dcb fcb (Dir es)
      = into a es (preOrderDirectoryTraverse k p dcb fcb n)"
proof (induction k arbitrary: p es n)
  case 0
  then show ?case by simp
next
  case (Suc k)
  show ?case
    using Suc.prems preOrderEntries_local [of a k dcb fcb, OF Suc.IH assms]
    by (cases "readdirSync p n") (simp_all add: readdirSync_Cons)
qed

lemma postOrderEntries_local:
  assumes trav: "\<And>p es n. map_of es a = Some n \<Longrightarrow>
      postOrderDirectoryTraverse k (a # p) dcb fcb (Dir es)
        = into a es (postOrderDirectoryTraverse k p dcb fcb n)"
    and dcb: "localCallback dcb" and fcb: "localCallback fcb"
  shows "map_of es a = Some n \<Longrightarrow>
    postOrderEntries k (a # p) names dcb fcb (Dir es)
      = into a es (postOrderEntries k p names dcb fcb n)"
proof (induction names arbitrary: es n)
  case Nil
  then show ?case by (simp add: AList.update_triv)
next
  case (Cons x rest)
  let ?E = "postOrderEntries k (a # p) rest dcb fcb"
  let ?E' = "postOrderEntries k p rest dcb fcb"
  let ?G = "\<lambda>fs'. andThen (dcb (a # p @ [x]) fs') ?E"
  let ?G' = "\<lambda>fs'. andThen (dcb (p @ [x]) fs') ?E'"
  have G: "?G (Dir es') = into a es' (?G' n')" if "map_of es' a = Some n'" for es' n'
    using that dcb andThen_local [of a ?E ?E', OF Cons.IH]
    by (simp add: localCallback_def)
  have d: "andThen (postOrderDirectoryTraverse k (a # p @ [x]) dcb fcb (Dir es)) ?G
      = into a es (andThen (postOrderDirectoryTraverse k (p @ [x]) dcb fcb n) ?G')"
    using Cons.prems andThen_local [of a ?G ?G', OF G]
    by (simp add: trav)
  have f: "andThen (fcb (a # p @ [x]) (Dir es)) ?E = into a es (andThen (fcb (p @ [x]) n) ?E')"
    using fcb Cons.prems andThen_local [of a ?E ?E', OF Cons.IH]
    by (simp add: localCallback_def)
  show ?case
    unfolding postOrderEntries.simps append_Cons using Cons.prems d f
    by (cases "isDirectory (p @ [x]) n") (simp_all add: isDirectory_Cons)
qed

lemma postOrderDirectoryTraverse_local:
  assumes "localCallback dcb" "localCallback fcb"
  shows "map_of es a = Some n \<Longrightarrow>
    postOrderDirectoryTraverse k (a # p) dcb fcb (Dir es)
      = into a es (postOrderDirectoryTraverse k p dcb fcb n)"
proof (induction k arbitrary: p es n)
  case 0
  then show ?case by simp
next
  case (Suc k)
  show ?case
    using Suc.prems postOrderEntries_local [of a k dcb fcb, OF Suc.IH assms]
    by (cases "readdirSync p n") (simp_all add: readdirSync_Cons)
qed

lemma emptyDir_Cons:
  "map_of es a = Some n \<Longrightarrow> emptyDir k (a # p) (Dir es) = into a es (emptyDir k p n)"
  unfolding emptyDir_def
  by (rule postOrderDirectoryTraverse_local [OF local_rmdirSync local_unlinkSync])

lemma local_testsDirCallback: "localCallback (testsDirCallback k)"
  unfolding localCallback_def
proof (intro allI impI)
  fix a :: string and p :: path and es :: "(string \<times> node) list" and n :: node
  assume n: "map_of es a = Some n" and p: "p \<noteq> []"
  have b: "basename (a # p) = basename p"
    using p by (simp add: basename_Cons)
  have "andThen (into a es (emptyDir k p n)) (rmdirSync (a # p))
      = into a es (andThen (emptyDir k p n) (rmdirSync p))"
    by (rule andThen_local) (simp add: rmdirSync_Cons p)
  then show "testsDirCallback k (a # p) (Dir es) = into a es (testsDirCallback k p n)"
    unfolding testsDirCallback_def b using n
    by (simp add: emptyDir_Cons AList.update_triv)
qed

section \<open>Emptying a directory\<close>

lemma fold_max_ge: "(m::nat) \<le> fold max xs m"
  by (induction xs arbitrary: m) (auto intro: order_trans [OF max.cobounded2])

lemma fold_max_mem: "(x::nat) \<in> set xs \<Longrightarrow> x \<le> fold max xs m"
proof (induction xs arbitrary: m)
  case Nil
  then show ?case by simp
next
  case (Cons y ys)
  then show ?case
    using fold_max_ge [of "max y m" ys] by auto
qed

lemma depth_child: "(x, v) \<in> set es \<Longrightarrow> depth v < depth (Dir es)"
  using fold_max_mem [of "depth v" "map (\<lambda>e. depth (snd e)) es" 0] by force

lemma depth_Dir_pos: "0 < depth (Dir es)"
  by simp

lemma isDirectory_top:
  "isDirectory [x] (Dir es) =
     (case map_of es x of None \<Rightarrow> Thrown ENOENT | Some (File c) \<Rightarrow> Returned False
      | Some (Dir sub) \<Rightarrow> Returned True)"
  by (simp add: isDirectory_def split: option.splits)

lemma existsSync_top: "existsSync [x] (Dir es) \<longleftrightarrow> map_of es x \<noteq> None"
  by (simp add: existsSync_def split: option.splits)

lemma unlinkSync_top:
  "unlinkSync [x] (Dir es) =
     (case map_of es x of None \<Rightarrow> Thrown ENOENT | Some (Dir sub) \<Rightarrow> Thrown EISDIR
      | Some (File c) \<Rightarrow> Returned (Dir (AList.delete x es)))"
  by (simp add: unlinkSync_def dirname_def basename_def split: option.splits node.splits)

lemma rmdirSync_top:
  "rmdirSync [x] (Dir es) =
     (case map_of es x of None \<Rightarrow> Thrown ENOENT | Some (File c) \<Rightarrow> Thrown ENOTDIR
      | Some (Dir sub) \<Rightarrow>
          if sub = [] then Returned (Dir (AList.delete x es)) else Thrown ENOTEMPTY)"
  by (simp add: rmdirSync_def dirname_def basename_def split: option.splits node.splits)

lemma readdirSync_root [simp]: "readdirSync [] (Dir es) = Returned (map fst es)"
  by (simp add: readdirSync_def)

lemma emptyEntries:
  assumes sub: "\<And>es. wellFormed (Dir es) \<Longrightarrow> depth (Dir es) \<le> k \<Longrightarrow>
      postOrderDirectoryTraverse k [] rmdirSync unlinkSync (Dir es) = Returned (Dir [])"
  shows "distinct (map fst es) \<Longrightarrow> (\<And>x v. (x, v) \<in> set es \<Longrightarrow> wellFormed v \<and> depth v \<le> k) \<Longrightarrow>
    postOrderEntries k [] (map fst es) rmdirSync unlinkSync (Dir es) = Returned (Dir [])"
proof (induction es)
  case Nil
  then show ?case by simp
next
  case (Cons e rest)
  obtain x v where e: "e = (x, v)" by (cases e)
  from Cons.prems(1) e have fresh: "x \<notin> fst ` set rest" and dist: "distinct (map fst rest)"
    by auto
  have rest: "postOrderEntries k [] (map fst rest) rmdirSync unlinkSync (Dir rest) = Returned (Dir [])"
    using Cons.IH [OF dist] Cons.prems(2) by auto
  show ?case
  proof (cases v)
    case (File c)
    with e fresh rest show ?thesis
      by (simp add: isDirectory_top unlinkSync_top)
  next
    case (Dir s)
    have "wellFormed (Dir s)" "depth (Dir s) \<le> k"
      using Cons.prems(2) [of x v] e Dir by auto
    then have "postOrderDirectoryTraverse k [] rmdirSync unlinkSync (Dir s) = Returned (Dir [])"
      by (rule sub)
    then have "postOrderDirectoryTraverse k [x] rmdirSync unlinkSync (Dir ((x, Dir s) # rest))
        = Returned (Dir ((x, Dir []) # rest))"
      using postOrderDirectoryTraverse_local [OF local_rmdirSync local_unlinkSync,
          of "(x, Dir s) # rest" x "Dir s" k "[]"]
      by simp
    with e Dir fresh rest show ?thesis
      by (simp add: isDirectory_top rmdirSync_top)
  qed
qed

lemma emptyDir_root:
  "wellFormed (Dir es) \<Longrightarrow> depth (Dir es) \<le> k \<Longrightarrow> emptyDir k [] (Dir es) = Returned (Dir [])"
  unfolding emptyDir_def
proof (induction k arbitrary: es)
  case 0
  then show ?case by simp
next
  case (Suc k)
  have "wellFormed v \<and> depth v \<le> k" if "(x, v) \<in> set es" for x v
    using that Suc.prems depth_child [OF that] by (auto simp: list_all_iff)
  with Suc.prems(1) emptyEntries [of k es, OF Suc.IH] show ?case
    by simp
qed

section \<open>Preparing the target directory\<close>

text \<open>After a confirmed prompt the target directory is emptied, at any place of the tree.\<close>

lemma emptyDir_at:
  "lookup fs root = Some (Dir es) \<Longrightarrow> wellFormed (Dir es) \<Longrightarrow> depth (Dir es) \<le> fuel \<Longrightarrow>
   \<exists>fs'. emptyDir fuel root fs = Returned fs' \<and> lookup fs' root = Some (Dir [])"
proof (induction root arbitrary: fs)
  case Nil
  then show ?case by (simp add: emptyDir_root)
next
  case (Cons a root)
  from Cons.prems(1) obtain es0 n where fs: "fs = Dir es0" and n: "map_of es0 a = Some n"
    and below: "lookup n root = Some (Dir es)"
    by (cases fs) (auto split: option.splits)
  from Cons.IH [OF below Cons.prems(2,3)] obtain n' where
    "emptyDir fuel root n = Returned n'" "lookup n' root = Some (Dir [])" by blast
  with fs n show ?case
    by (simp add: emptyDir_Cons AList.update_conv')
qed

lemma confirmed_overwrite_empties_target:
  assumes "map_of (answers s) ''shouldOverwrite'' = Some (Flag True)"
    and "lookup fs (relativePath (targetDir s)) = Some (Dir es)"
    and "wellFormed (Dir es)" "depth (Dir es) \<le> fuel"
  shows "\<exists>fs'. prepareRoot fuel s fs = Returned fs' \<and>
    lookup fs' (relativePath (targetDir s)) = Some (Dir [])"
  using assms(1) emptyDir_at [OF assms(2-4)]
  by (simp add: prepareRoot_def answerOr_def)

text \<open>
  Claim C1 at \<open>demo --default --force\<close>, where \<open>demo\<close> holds a file: no prompt is shown,
  \<open>shouldOverwrite\<close> has no answer, and lines 222 to 226 leave the directory as it is, the
  old file included, whatever the user and the fuel.
\<close>

theorem force_flag_leaves_target_as_it_is:
  "askQuestions
     \<lparr>argv_positional = Some ''demo'', argv_default = Some True, argv_ts = None, argv_jsx = None,
       argv_router = None, argv_pinia = None, argv_tests = None, argv_eslint = None,
       argv_eslint_with_prettier = None, argv_force = Some True\<rparr>
     (Dir [(''demo'', Dir [(''old.txt'', File ''kept'')])]) u
   = ([], [Banner], Proceed \<lparr>targetDir = ''demo'', answers = []\<rparr>) \<and>
   prepareRoot fuel \<lparr>targetDir = ''demo'', answers = []\<rparr>
     (Dir [(''demo'', Dir [(''old.txt'', File ''kept'')])])
   = Returned (Dir [(''demo'', Dir [(''old.txt'', File ''kept'')])])"
  by code_simp

section \<open>Removing the tests directories\<close>

lemma map_of_mid: "x \<notin> fst ` set before \<Longrightarrow> map_of (before @ (x, v) # rest) x = Some v"
  by (induction before) auto

lemma update_mid:
  "x \<notin> fst ` set before \<Longrightarrow>
   AList.update x v' (before @ (x, v) # rest) = before @ (x, v') # rest"
  by (induction before) auto

lemma delete_mid:
  "x \<notin> fst ` set before \<Longrightarrow> x \<notin> fst ` set rest \<Longrightarrow>
   AList.delete x (before @ (x, v) # rest) = before @ rest"
  by (induction before) auto

lemma map_of_absent: "x \<notin> fst ` set es \<Longrightarrow> map_of es x = None"
  by (simp add: map_of_eq_None_iff)

lemma testsDirCallback_top:
  "testsDirCallback k [x] fs =
     (if x = ''cypress'' \<or> x = ''__tests__''
      then andThen (emptyDir k [x] fs) (rmdirSync [x]) else Returned fs)"
  by (simp add: testsDirCallback_def basename_def)

lemma removeTestsEntries:
  assumes sub: "\<And>es. wellFormed (Dir es) \<Longrightarrow> depth (Dir es) \<le> j \<Longrightarrow> depth (Dir es) \<le> k \<Longrightarrow>
      preOrderDirectoryTraverse j [] (testsDirCallback k) noop (Dir es)
        = Returned (withoutTests (Dir es))"
  shows "distinct (map fst (before @ todo)) \<Longrightarrow>
    (\<And>x v. (x, v) \<in> set todo \<Longrightarrow> wellFormed v \<and> depth v \<le> j \<and> depth v \<le> k) \<Longrightarrow>
    preOrderEntries j [] (map fst todo) (testsDirCallback k) noop (Dir (before @ todo))
      = Returned (Dir (before @ kept todo))"
proof (induction todo arbitrary: before)
  case Nil
  then show ?case by simp
next
  case (Cons e rest)
  obtain x v where e: "e = (x, v)" by (cases e)
  from Cons.prems(1) e have fresh: "x \<notin> fst ` set before" "x \<notin> fst ` set rest"
    by auto
  have children: "wellFormed v' \<and> depth v' \<le> j \<and> depth v' \<le> k" if "(x', v') \<in> set rest" for x' v'
    using Cons.prems(2) that by auto
  have here: "map_of (before @ (x, v') # rest) x = Some v'" for v'
    by (rule map_of_mid) (rule fresh)
  have later: "preOrderEntries j [] (map fst rest) (testsDirCallback k) noop
      (Dir (before @ (x, v') # rest)) = Returned (Dir (before @ (x, v') # kept rest))" for v'
    using Cons.IH [of "before @ [(x, v')]"] Cons.prems(1) children e by simp
  show ?case
  proof (cases v)
    case (File c)
    have "noop [x] (Dir (before @ (x, v) # rest)) = Returned (Dir (before @ (x, v) # rest))"
      by (simp add: noop_def)
    with File e here later [of v] show ?thesis
      by (simp add: isDirectory_top isTestsDir_def del: map_of_append)
  next
    case (Dir s)
    have s: "wellFormed (Dir s)" "depth (Dir s) \<le> j" "depth (Dir s) \<le> k"
      using Cons.prems(2) [of x v] e Dir by auto
    show ?thesis
    proof (cases "x = ''cypress'' \<or> x = ''__tests__''")
      case True
      have "emptyDir k [x] (Dir (before @ (x, v) # rest)) = Returned (Dir (before @ (x, Dir []) # rest))"
        using emptyDir_Cons [OF here [of v], where k = k and p = "[]"] emptyDir_root [OF s(1,3)] Dir fresh
        by (simp add: update_mid del: map_of_append)
      then have gone: "testsDirCallback k [x] (Dir (before @ (x, v) # rest)) = Returned (Dir (before @ rest))"
        using True fresh here
        by (simp add: testsDirCallback_top rmdirSync_top delete_mid del: map_of_append)
      have "map_of (before @ rest) x = None"
        using fresh by (intro map_of_absent) auto
      then have "\<not> existsSync [x] (Dir (before @ rest))"
        by (simp add: existsSync_top del: map_of_append)
      moreover have "preOrderEntries j [] (map fst rest) (testsDirCallback k) noop (Dir (before @ rest))
          = Returned (Dir (before @ kept rest))"
        using Cons.IH [of before] Cons.prems(1) children by simp
      ultimately show ?thesis
        using e Dir True here gone
        by (simp add: isDirectory_top isTestsDir_def del: map_of_append)
    next
      case False
      have "preOrderDirectoryTraverse j [x] (testsDirCallback k) noop (Dir (before @ (x, v) # rest))
          = Returned (Dir (before @ (x, withoutTests v) # rest))"
        using preOrderDirectoryTraverse_local [OF local_testsDirCallback local_noop, OF here [of v],
            where k = j and k1 = k and p = "[]"]
          sub [OF s] Dir fresh
        by (simp add: update_mid del: map_of_append)
      with e Dir False here later [of "withoutTests v"] show ?thesis
        by (simp add: isDirectory_top testsDirCallback_top existsSync_top isTestsDir_def
            del: map_of_append)
    qed
  qed
qed

lemma removeTests_traverse:
  "wellFormed (Dir es) \<Longrightarrow> depth (Dir es) \<le> j \<Longrightarrow> depth (Dir es) \<le> k \<Longrightarrow>
   preOrderDirectoryTraverse j [] (testsDirCallback k) noop (Dir es) = Returned (withoutTests (Dir es))"
proof (induction j arbitrary: es)
  case 0
  then show ?case by simp
next
  case (Suc j)
  have sub: "preOrderDirectoryTraverse j [] (testsDirCallback k) noop (Dir es')
      = Returned (withoutTests (Dir es'))"
    if "wellFormed (Dir es')" "depth (Dir es') \<le> j" "depth (Dir es') \<le> k" for es'
    using that by (rule Suc.IH)
  have children: "wellFormed v \<and> depth v \<le> j \<and> depth v \<le> k" if "(x, v) \<in> set es" for x v
    using that Suc.prems depth_child [OF that] by (auto simp: list_all_iff)
  show ?case
    using removeTestsEntries [of j k "[]" es, OF sub] Suc.prems(1) children
    by simp
qed

lemma map_of_kept:
  "distinct (map fst es) \<Longrightarrow>
   map_of (kept es) a =
     (case map_of es a of None \<Rightarrow> None
      | Some v \<Rightarrow> if isTestsDir a v then None else Some (withoutTests v))"
proof (induction es)
  case Nil
  then show ?case by simp
next
  case (Cons e es)
  obtain x v where e: "e = (x, v)" by (cases e)
  with Cons.prems have none: "map_of es x = None" and dist: "distinct (map fst es)"
    by (simp_all add: map_of_eq_None_iff)
  note IH = Cons.IH [OF dist]
  show ?case
  proof (cases "a = x")
    case True
    with IH none e show ?thesis by simp
  next
    case False
    with IH e show ?thesis by simp
  qed
qed

lemma wellFormed_child:
  "wellFormed (Dir es) \<Longrightarrow> map_of es a = Some v \<Longrightarrow> wellFormed v"
  by (auto simp: list_all_iff dest: map_of_SomeD)

lemma lookup_withoutTests:
  "wellFormed t \<Longrightarrow>
   lookup (withoutTests t) p =
     (if underTests t p then None else map_option withoutTests (lookup t p))"
proof (induction p arbitrary: t)
  case Nil
  then show ?case by simp
next
  case (Cons a p)
  show ?case
  proof (cases t)
    case (File c)
    then show ?thesis by simp
  next
    case (Dir es)
    with Cons.prems have dist: "distinct (map fst es)" by simp
    show ?thesis
    proof (cases "map_of es a")
      case None
      with Dir dist show ?thesis by (simp add: map_of_kept)
    next
      case (Some v)
      with Cons.prems Dir have "wellFormed v" by (auto intro: wellFormed_child)
      from Cons.IH [OF this] Dir dist Some show ?thesis
        by (simp add: map_of_kept)
    qed
  qed
qed

lemma underTests_below:
  "lookup t (dir @ [name]) = Some (Dir sub) \<Longrightarrow> name = ''cypress'' \<or> name = ''__tests__'' \<Longrightarrow>
   underTests t (dir @ name # below)"
proof (induction dir arbitrary: t)
  case Nil
  then show ?case
    by (cases t) (auto simp: isTestsDir_def split: option.splits)
next
  case (Cons a dir)
  then show ?case
    by (cases t) (auto split: option.splits)
qed

lemma underTests_prefix:
  "underTests t p \<Longrightarrow>
   \<exists>dir name sub below. p = dir @ name # below \<and> lookup t (dir @ [name]) = Some (Dir sub) \<and>
     (name = ''cypress'' \<or> name = ''__tests__'')"
proof (induction t p rule: underTests.induct)
  case (1 n)
  then show ?case by simp
next
  case (2 c a p)
  then show ?case by simp
next
  case (3 es a p)
  then obtain v where v: "map_of es a = Some v" and or: "isTestsDir a v \<or> underTests v p"
    by (auto split: option.splits)
  show ?case
  proof (cases "isTestsDir a v")
    case True
    then obtain sub where "v = Dir sub" "a = ''cypress'' \<or> a = ''__tests__''"
      by (cases v) (auto simp: isTestsDir_def)
    with v have "a # p = [] @ a # p \<and> lookup (Dir es) ([] @ [a]) = Some (Dir sub) \<and>
        (a = ''cypress'' \<or> a = ''__tests__'')"
      by simp
    then show ?thesis by blast
  next
    case False
    with or have "underTests v p" by simp
    from "3.IH" [OF v this] obtain dir name sub below where
      "p = dir @ name # below" "lookup v (dir @ [name]) = Some (Dir sub)"
      "name = ''cypress'' \<or> name = ''__tests__''"
      by blast
    with v have "a # p = (a # dir) @ name # below \<and>
        lookup (Dir es) ((a # dir) @ [name]) = Some (Dir sub) \<and>
        (name = ''cypress'' \<or> name = ''__tests__'')"
      by simp
    then show ?thesis by blast
  qed
qed

text \<open>
  Claim C9: on a well-formed tree, with fuel for its depth, the pass of lines 318 to 334
  returns, and in the tree it returns every directory named \<open>cypress\<close> or \<open>__tests__\<close>
  is gone with everything below it, while every path that leads neither to nor through
  such a directory keeps what it had: nothing, a file with the same content, or a
  directory.
\<close>

theorem removeTests_prunes:
  assumes "wellFormed (Dir es)" and "depth (Dir es) \<le> fuel"
  shows "\<exists>fs'. removeTests fuel [] (Dir es) = Returned fs' \<and>
    (\<forall>dir name sub below.
       lookup (Dir es) (dir @ [name]) = Some (Dir sub) \<longrightarrow>
       name = ''cypress'' \<or> name = ''__tests__'' \<longrightarrow>
       lookup fs' (dir @ name # below) = None) \<and>
    (\<forall>p. (\<forall>dir name sub below.
            p = dir @ name # below \<longrightarrow> lookup (Dir es) (dir @ [name]) = Some (Dir sub) \<longrightarrow>
            name \<noteq> ''cypress'' \<and> name \<noteq> ''__tests__'') \<longrightarrow>
         (case lookup (Dir es) p of
            None \<Rightarrow> lookup fs' p = None
          | Some (File c) \<Rightarrow> lookup fs' p = Some (File c)
          | Some (Dir sub) \<Rightarrow> (\<exists>sub'. lookup fs' p = Some (Dir sub'))))"
proof -
  let ?t = "Dir es"
  have run: "removeTests fuel [] ?t = Returned (withoutTests ?t)"
    unfolding removeTests_def using assms by (simp only: removeTests_traverse)
  have gone: "lookup (withoutTests ?t) (dir @ name # below) = None"
    if "lookup ?t (dir @ [name]) = Some (Dir sub)" "name = ''cypress'' \<or> name = ''__tests__''"
    for dir name sub below
    using underTests_below [OF that] assms(1) by (simp only: lookup_withoutTests if_True)
  have kept: "case lookup ?t p of
            None \<Rightarrow> lookup (withoutTests ?t) p = None
          | Some (File c) \<Rightarrow> lookup (withoutTests ?t) p = Some (File c)
          | Some (Dir sub) \<Rightarrow> (\<exists>sub'. lookup (withoutTests ?t) p = Some (Dir sub'))"
    if "\<forall>dir name sub below.
            p = dir @ name # below \<longrightarrow> lookup ?t (dir @ [name]) = Some (Dir sub) \<longrightarrow>
            name \<noteq> ''cypress'' \<and> name \<noteq> ''__tests__''" for p
  proof -
    from that have "\<not> underTests ?t p"
      using underTests_prefix [of ?t p] by blast
    with assms(1) have "lookup (withoutTests ?t) p = map_option withoutTests (lookup ?t p)"
      by (simp only: lookup_withoutTests if_False)
    then show ?thesis
      by (simp split: option.splits node.splits)
  qed
  from run gone kept show ?thesis by blast
qed

theorem removeTests_prunes_witness:
  "wellFormed (Dir [(''cypress'', Dir [(''plugins'', Dir [(''index.js'', File ''p'')])]),
       (''src'', Dir [(''__tests__'', Dir [(''a.spec.js'', File ''t'')]), (''main.js'', File ''m'')]),
       (''index.html'', File ''h'')]) \<and>
   depth (Dir [(''cypress'', Dir [(''plugins'', Dir [(''index.js'', File ''p'')])]),
       (''src'', Dir [(''__tests__'', Dir [(''a.spec.js'', File ''t'')]), (''main.js'', File ''m'')]),
       (''index.html'', File ''h'')]) \<le> 3 \<and>
   (\<exists>fs'. removeTests 3 []
       (Dir [(''cypress'', Dir [(''plugins'', Dir [(''index.js'', File ''p'')])]),
         (''src'', Dir [(''__tests__'', Dir [(''a.spec.js'', File ''t'')]), (''main.js'', File ''m'')]),
         (''index.html'', File ''h'')]) = Returned fs' \<and>
      lookup fs' [''cypress'', ''plugins'', ''index.js''] = None \<and>
      lookup fs' [''src'', ''__tests__''] = None \<and>
      lookup fs' [''src'', ''main.js''] = Some (File ''m''))"
proof -
  let ?es = "[(''cypress'', Dir [(''plugins'', Dir [(''index.js'', File ''p'')])]),
       (''src'', Dir [(''__tests__'', Dir [(''a.spec.js'', File ''t'')]), (''main.js'', File ''m'')]),
       (''index.html'', File ''h'')]"
  have wf: "wellFormed (Dir ?es)" by code_simp
  have d: "depth (Dir ?es) \<le> 3" by code_simp
  from removeTests_prunes [OF wf d] obtain fs' where
    run: "removeTests 3 [] (Dir ?es) = Returned fs'" by blast
  have "removeTests 3 [] (Dir ?es) = Returned (Dir [(''src'', Dir [(''main.js'', File ''m'')]),
       (''index.html'', File ''h'')])"
    by code_simp
  with run have "fs' = Dir [(''src'', Dir [(''main.js'', File ''m'')]), (''index.html'', File ''h'')]"
    by simp
  with run wf d show ?thesis by simp
qed

section \<open>Converting to TypeScript\<close>

lemma js_split: "isJs x \<Longrightarrow> \<exists>stem. x = stem @ ''.js'' \<and> toTs x = stem @ ''.ts''"
proof -
  assume a: "isJs x"
  then have "drop (length x - length ''.js'') x = ''.js''"
    by (simp add: endsWith_def)
  then have "x = take (length x - length ''.js'') x @ ''.js''"
    by (metis append_take_drop_id)
  moreover from a have "toTs x = take (length x - length ''.js'') x @ ''.ts''"
    by (simp add: replaceSuffix_def)
  ultimately show ?thesis by blast
qed

lemma js_snoc [simp]: "isJs (stem @ ''.js'')"
  by (simp add: endsWith_def)

lemma not_js_ts [simp]: "\<not> isJs (stem @ ''.ts'')"
  by (simp add: endsWith_def)

lemma ts_not_js: "isJs x \<Longrightarrow> \<not> isJs (toTs x)"
  using js_split by fastforce

lemma ts_neq: "isJs x \<Longrightarrow> toTs x \<noteq> x"
  using js_split by fastforce

lemma ts_inj: "isJs x \<Longrightarrow> isJs y \<Longrightarrow> toTs x = toTs y \<Longrightarrow> x = y"
  using js_split [of x] js_split [of y] by auto

lemma ts_not_config: "isJs x \<Longrightarrow> toTs x \<noteq> ''tsconfig.json'' \<and> toTs x \<noteq> ''jsconfig.json''"
proof -
  assume "isJs x"
  then obtain stem where "toTs x = stem @ ''.ts''" using js_split by blast
  moreover have "\<not> endsWith ''tsconfig.json'' ''.ts''" "\<not> endsWith ''jsconfig.json'' ''.ts''"
    by (simp_all add: endsWith_def)
  moreover have "endsWith (stem @ ''.ts'') ''.ts''"
    by (simp add: endsWith_def)
  ultimately show ?thesis by metis
qed

lemma config_not_js [simp]:
  "\<not> isJs ''jsconfig.json''" "\<not> isJs ''tsconfig.json''" "\<not> isJs ''index.html''"
  by (simp_all add: endsWith_def)

lemma config_rename [simp]:
  "replaceSuffix ''jsconfig.json'' ''tsconfig.json'' ''jsconfig.json'' = ''tsconfig.json''"
  by (simp add: replaceSuffix_def endsWith_def)

lemma tsInvI:
  assumes "\<And>y s. m0 y = Some (Dir s) \<Longrightarrow>
        (if y \<in> set rest then m y = Some (Dir s)
         else (\<exists>s'. m y = Some s' \<and> converted (Dir s) s'))"
    and "\<And>y c. m0 y = Some (File c) \<Longrightarrow> y \<in> set rest \<Longrightarrow> y \<noteq> ''tsconfig.json'' \<Longrightarrow>
        m y = Some (File c)"
    and "\<And>y c. m0 y = Some (File c) \<Longrightarrow> \<not> isJs y \<Longrightarrow> y \<noteq> ''jsconfig.json'' \<Longrightarrow>
        (\<exists>c'. m y = Some (File c') \<and> (y \<noteq> ''tsconfig.json'' \<longrightarrow> c' = c))"
    and "\<And>y c. m0 y = Some (File c) \<Longrightarrow> isJs y \<Longrightarrow> y \<notin> set rest \<Longrightarrow>
        m y = None \<and> (m0 (toTs y) = None \<longrightarrow> m (toTs y) = Some (File c))"
    and "\<And>y s. m y = Some (Dir s) \<Longrightarrow> (\<exists>s0. m0 y = Some (Dir s0))"
    and "\<And>y c. m0 y = Some (File c) \<Longrightarrow> isJs y \<Longrightarrow> y \<in> set rest \<Longrightarrow> m0 (toTs y) = None \<Longrightarrow>
        m (toTs y) = None"
  shows "tsInv m0 rest m"
  unfolding tsInv_def using assms by blast

lemma tsInv_dir:
  "tsInv m0 rest m \<Longrightarrow> m0 y = Some (Dir s) \<Longrightarrow>
   (if y \<in> set rest then m y = Some (Dir s)
    else (\<exists>s'. m y = Some s' \<and> converted (Dir s) s'))"
  unfolding tsInv_def by blast

lemma tsInv_todo_file:
  "tsInv m0 rest m \<Longrightarrow> m0 y = Some (File c) \<Longrightarrow> y \<in> set rest \<Longrightarrow> y \<noteq> ''tsconfig.json'' \<Longrightarrow>
   m y = Some (File c)"
  unfolding tsInv_def by blast

lemma tsInv_plain_file:
  "tsInv m0 rest m \<Longrightarrow> m0 y = Some (File c) \<Longrightarrow> \<not> isJs y \<Longrightarrow> y \<noteq> ''jsconfig.json'' \<Longrightarrow>
   (\<exists>c'. m y = Some (File c') \<and> (y \<noteq> ''tsconfig.json'' \<longrightarrow> c' = c))"
  unfolding tsInv_def by blast

lemma tsInv_done_js:
  "tsInv m0 rest m \<Longrightarrow> m0 y = Some (File c) \<Longrightarrow> isJs y \<Longrightarrow> y \<notin> set rest \<Longrightarrow>
   m y = None \<and> (m0 (toTs y) = None \<longrightarrow> m (toTs y) = Some (File c))"
  unfolding tsInv_def by blast

lemma tsInv_no_new_dir:
  "tsInv m0 rest m \<Longrightarrow> m y = Some (Dir s) \<Longrightarrow> (\<exists>s0. m0 y = Some (Dir s0))"
  unfolding tsInv_def by blast

lemma tsInv_todo_js:
  "tsInv m0 rest m \<Longrightarrow> m0 y = Some (File c) \<Longrightarrow> isJs y \<Longrightarrow> y \<in> set rest \<Longrightarrow>
   m0 (toTs y) = None \<Longrightarrow> m (toTs y) = None"
  unfolding tsInv_def by blast

lemma map_of_in_names: "map_of es y = Some n \<Longrightarrow> y \<in> set (map fst es)"
  by (auto dest: map_of_SomeD intro: rev_image_eqI)

lemma tsInv_start: "tsInv (map_of es) (map fst es) (map_of es)"
proof (rule tsInvI)
  fix y s assume a: "map_of es y = Some (Dir s)"
  from map_of_in_names [OF a] a
  show "if y \<in> set (map fst es) then map_of es y = Some (Dir s)
      else (\<exists>s'. map_of es y = Some s' \<and> converted (Dir s) s')"
    by (simp only: if_True)
next
  fix y c assume a: "map_of es y = Some (File c)" "y \<notin> set (map fst es)"
  from map_of_in_names [OF a(1)] a(2)
  show "map_of es y = None \<and>
      (map_of es (toTs y) = None \<longrightarrow> map_of es (toTs y) = Some (File c))"
    by contradiction
next
  fix y c assume "map_of es y = Some (File c)"
  then show "\<exists>c'. map_of es y = Some (File c') \<and> (y \<noteq> ''tsconfig.json'' \<longrightarrow> c' = c)"
    by blast
next
  fix y s assume "map_of es y = Some (Dir s)"
  then show "\<exists>s0. map_of es y = Some (Dir s0)"
    by blast
qed

lemma tsInv_other:
  assumes inv: "tsInv m0 (x # rest) m" and x: "m0 x = Some (File c)" "\<not> isJs x"
    "x \<noteq> ''jsconfig.json''"
  shows "tsInv m0 rest m"
proof (rule tsInvI)
  fix y s assume "m0 y = Some (Dir s)"
  with x tsInv_dir [OF inv this]
  show "if y \<in> set rest then m y = Some (Dir s)
      else (\<exists>s'. m y = Some s' \<and> converted (Dir s) s')"
    by (auto split: if_splits)
next
  fix y c' assume "m0 y = Some (File c')" "y \<in> set rest" "y \<noteq> ''tsconfig.json''"
  then show "m y = Some (File c')"
    using tsInv_todo_file [OF inv, of y c'] by simp
next
  fix y c' assume "m0 y = Some (File c')" "\<not> isJs y" "y \<noteq> ''jsconfig.json''"
  then show "\<exists>c''. m y = Some (File c'') \<and> (y \<noteq> ''tsconfig.json'' \<longrightarrow> c'' = c')"
    by (rule tsInv_plain_file [OF inv])
next
  fix y c' assume "m0 y = Some (File c')" "isJs y" "y \<notin> set rest"
  with x show "m y = None \<and> (m0 (toTs y) = None \<longrightarrow> m (toTs y) = Some (File c'))"
    using tsInv_done_js [OF inv, of y c'] by auto
next
  fix y s assume "m y = Some (Dir s)"
  then show "\<exists>s0. m0 y = Some (Dir s0)"
    by (rule tsInv_no_new_dir [OF inv])
next
  fix y c' assume "m0 y = Some (File c')" "isJs y" "y \<in> set rest" "m0 (toTs y) = None"
  then show "m (toTs y) = None"
    using tsInv_todo_js [OF inv, of y c'] by simp
qed

lemma tsInv_subdir:
  assumes inv: "tsInv m0 (x # rest) m" and x: "m0 x = Some (Dir s)" "x \<notin> set rest"
    and s': "converted (Dir s) s'"
  shows "tsInv m0 rest (m(x \<mapsto> s'))"
proof (rule tsInvI)
  fix y t assume y: "m0 y = Some (Dir t)"
  show "if y \<in> set rest then (m(x \<mapsto> s')) y = Some (Dir t)
      else (\<exists>t'. (m(x \<mapsto> s')) y = Some t' \<and> converted (Dir t) t')"
  proof (cases "y = x")
    case True
    with x y s' show ?thesis by simp
  next
    case False
    with tsInv_dir [OF inv y] show ?thesis by (auto split: if_splits)
  qed
next
  fix y c assume "m0 y = Some (File c)" "y \<in> set rest" "y \<noteq> ''tsconfig.json''"
  with x show "(m(x \<mapsto> s')) y = Some (File c)"
    using tsInv_todo_file [OF inv, of y c] by auto
next
  fix y c assume "m0 y = Some (File c)" "\<not> isJs y" "y \<noteq> ''jsconfig.json''"
  with x show "\<exists>c'. (m(x \<mapsto> s')) y = Some (File c') \<and> (y \<noteq> ''tsconfig.json'' \<longrightarrow> c' = c)"
    using tsInv_plain_file [OF inv, of y c] by auto
next
  fix y c assume "m0 y = Some (File c)" "isJs y" "y \<notin> set rest"
  with x show "(m(x \<mapsto> s')) y = None \<and>
      (m0 (toTs y) = None \<longrightarrow> (m(x \<mapsto> s')) (toTs y) = Some (File c))"
    using tsInv_done_js [OF inv, of y c] by auto
next
  fix y t assume "(m(x \<mapsto> s')) y = Some (Dir t)"
  with x show "\<exists>s0. m0 y = Some (Dir s0)"
    using tsInv_no_new_dir [OF inv, of y t] by (auto split: if_splits)
next
  fix y c assume "m0 y = Some (File c)" "isJs y" "y \<in> set rest" "m0 (toTs y) = None"
  with x show "(m(x \<mapsto> s')) (toTs y) = None"
    using tsInv_todo_js [OF inv, of y c] by auto
qed

lemma tsInv_unlink:
  assumes inv: "tsInv m0 (x # rest) m" and x: "m0 x = Some (File c)" "isJs x" "x \<notin> set rest"
    and sibling: "m0 (toTs x) \<noteq> None"
  shows "tsInv m0 rest (m(x := None))"
proof (rule tsInvI)
  fix y t assume y: "m0 y = Some (Dir t)"
  with x tsInv_dir [OF inv y]
  show "if y \<in> set rest then (m(x := None)) y = Some (Dir t)
      else (\<exists>t'. (m(x := None)) y = Some t' \<and> converted (Dir t) t')"
    by (auto split: if_splits)
next
  fix y c' assume "m0 y = Some (File c')" "y \<in> set rest" "y \<noteq> ''tsconfig.json''"
  with x show "(m(x := None)) y = Some (File c')"
    using tsInv_todo_file [OF inv, of y c'] by auto
next
  fix y c' assume "m0 y = Some (File c')" "\<not> isJs y" "y \<noteq> ''jsconfig.json''"
  with x show "\<exists>c''. (m(x := None)) y = Some (File c'') \<and> (y \<noteq> ''tsconfig.json'' \<longrightarrow> c'' = c')"
    using tsInv_plain_file [OF inv, of y c'] by auto
next
  fix y c' assume y: "m0 y = Some (File c')" "isJs y" "y \<notin> set rest"
  show "(m(x := None)) y = None \<and>
      (m0 (toTs y) = None \<longrightarrow> (m(x := None)) (toTs y) = Some (File c'))"
  proof (cases "y = x")
    case True
    with sibling x show ?thesis by auto
  next
    case False
    with y x ts_not_js [OF y(2)] show ?thesis
      using tsInv_done_js [OF inv, of y c'] by auto
  qed
next
  fix y t assume "(m(x := None)) y = Some (Dir t)"
  then show "\<exists>s0. m0 y = Some (Dir s0)"
    using tsInv_no_new_dir [OF inv, of y t] by (auto split: if_splits)
next
  fix y c' assume "m0 y = Some (File c')" "isJs y" "y \<in> set rest" "m0 (toTs y) = None"
  then show "(m(x := None)) (toTs y) = None"
    using tsInv_todo_js [OF inv, of y c'] by auto
qed


lemma tsInv_rename:
  assumes inv: "tsInv m0 (x # rest) m" and x: "m0 x = Some (File c)" "isJs x" "x \<notin> set rest"
    and sibling: "m0 (toTs x) = None"
  shows "tsInv m0 rest (m(x := None, toTs x \<mapsto> File c))"
proof (rule tsInvI)
  fix y t assume y: "m0 y = Some (Dir t)"
  with x sibling tsInv_dir [OF inv y]
  show "if y \<in> set rest then (m(x := None, toTs x \<mapsto> File c)) y = Some (Dir t)
      else (\<exists>t'. (m(x := None, toTs x \<mapsto> File c)) y = Some t' \<and> converted (Dir t) t')"
    by (auto split: if_splits)
next
  fix y c' assume "m0 y = Some (File c')" "y \<in> set rest" "y \<noteq> ''tsconfig.json''"
  with x sibling show "(m(x := None, toTs x \<mapsto> File c)) y = Some (File c')"
    using tsInv_todo_file [OF inv, of y c'] by auto
next
  fix y c' assume "m0 y = Some (File c')" "\<not> isJs y" "y \<noteq> ''jsconfig.json''"
  with x sibling
  show "\<exists>c''. (m(x := None, toTs x \<mapsto> File c)) y = Some (File c'') \<and>
      (y \<noteq> ''tsconfig.json'' \<longrightarrow> c'' = c')"
    using tsInv_plain_file [OF inv, of y c'] by auto
next
  fix y c' assume y: "m0 y = Some (File c')" "isJs y" "y \<notin> set rest"
  show "(m(x := None, toTs x \<mapsto> File c)) y = None \<and>
      (m0 (toTs y) = None \<longrightarrow> (m(x := None, toTs x \<mapsto> File c)) (toTs y) = Some (File c'))"
  proof (cases "y = x")
    case True
    with x y ts_neq [OF x(2)] show ?thesis by auto
  next
    case False
    then have "toTs y \<noteq> toTs x"
      using ts_inj [OF y(2) x(2)] by blast
    moreover have "toTs y \<noteq> x" "y \<noteq> toTs x"
      using ts_not_js [OF y(2)] x(2) y(1) sibling by auto
    ultimately show ?thesis
      using False y tsInv_done_js [OF inv, of y c'] by auto
  qed
next
  fix y t assume "(m(x := None, toTs x \<mapsto> File c)) y = Some (Dir t)"
  then show "\<exists>s0. m0 y = Some (Dir s0)"
    using tsInv_no_new_dir [OF inv, of y t] by (auto split: if_splits)
next
  fix y c' assume y: "m0 y = Some (File c')" "isJs y" "y \<in> set rest" "m0 (toTs y) = None"
  then have "toTs y \<noteq> toTs x"
    using ts_inj [OF y(2) x(2)] x(3) by blast
  with y show "(m(x := None, toTs x \<mapsto> File c)) (toTs y) = None"
    using tsInv_todo_js [OF inv, of y c'] by auto
qed

lemma tsInv_config:
  assumes inv: "tsInv m0 (x # rest) m" and x: "m0 x = Some (File c)" "x = ''jsconfig.json''"
    "x \<notin> set rest"
    and noclash: "\<And>s. m0 ''tsconfig.json'' \<noteq> Some (Dir s)"
  shows "tsInv m0 rest (m(x := None, ''tsconfig.json'' \<mapsto> File c))"
proof (rule tsInvI)
  fix y t assume y: "m0 y = Some (Dir t)"
  have "y \<noteq> ''tsconfig.json''"
    using y noclash by blast
  with x y tsInv_dir [OF inv y]
  show "if y \<in> set rest then (m(x := None, ''tsconfig.json'' \<mapsto> File c)) y = Some (Dir t)
      else (\<exists>t'. (m(x := None, ''tsconfig.json'' \<mapsto> File c)) y = Some t' \<and> converted (Dir t) t')"
    by (auto split: if_splits)
next
  fix y c' assume "m0 y = Some (File c')" "y \<in> set rest" "y \<noteq> ''tsconfig.json''"
  with x show "(m(x := None, ''tsconfig.json'' \<mapsto> File c)) y = Some (File c')"
    using tsInv_todo_file [OF inv, of y c'] by auto
next
  fix y c' assume "m0 y = Some (File c')" "\<not> isJs y" "y \<noteq> ''jsconfig.json''"
  with x
  show "\<exists>c''. (m(x := None, ''tsconfig.json'' \<mapsto> File c)) y = Some (File c'') \<and>
      (y \<noteq> ''tsconfig.json'' \<longrightarrow> c'' = c')"
    using tsInv_plain_file [OF inv, of y c'] by auto
next
  fix y c' assume y: "m0 y = Some (File c')" "isJs y" "y \<notin> set rest"
  with x ts_not_config [OF y(2)]
  show "(m(x := None, ''tsconfig.json'' \<mapsto> File c)) y = None \<and>
      (m0 (toTs y) = None \<longrightarrow>
       (m(x := None, ''tsconfig.json'' \<mapsto> File c)) (toTs y) = Some (File c'))"
    using tsInv_done_js [OF inv, of y c'] by auto
next
  fix y t assume "(m(x := None, ''tsconfig.json'' \<mapsto> File c)) y = Some (Dir t)"
  then show "\<exists>s0. m0 y = Some (Dir s0)"
    using tsInv_no_new_dir [OF inv, of y t] by (auto split: if_splits)
next
  fix y c' assume y: "m0 y = Some (File c')" "isJs y" "y \<in> set rest" "m0 (toTs y) = None"
  with ts_not_config [OF y(2)]
  show "(m(x := None, ''tsconfig.json'' \<mapsto> File c)) (toTs y) = None"
    using tsInv_todo_js [OF inv, of y c'] by auto
qed

lemma tsFileCallback_top:
  "tsFileCallback [x] fs =
     (if isJs x then
        (if existsSync [toTs x] fs then unlinkSync [x] fs else renameSync [x] [toTs x] fs)
      else if x = ''jsconfig.json'' then renameSync [x] [''tsconfig.json''] fs
      else Returned fs)"
  by (simp add: tsFileCallback_def basename_def dirname_def Let_def)

lemma renameSync_top:
  assumes "x \<noteq> y" "map_of cur x = Some (File c)" "\<And>s. map_of cur y \<noteq> Some (Dir s)"
  shows "renameSync [x] [y] (Dir cur)
    = Returned (Dir (AList.update y (File c) (AList.delete x cur)))"
proof (cases "map_of cur y")
  case None
  with assms show ?thesis
    by (simp add: renameSync_def basename_def dirname_def)
next
  case (Some n)
  with assms(3) obtain c' where "n = File c'" by (cases n) auto
  with Some assms show ?thesis
    by (simp add: renameSync_def basename_def dirname_def)
qed

lemma lookup_top: "lookup (Dir es) [x] = map_of es x"
  by (simp split: option.splits)

lemma tsEntries:
  assumes sub: "\<And>s. wellFormed (Dir s) \<Longrightarrow> noConfigClash (Dir s) \<Longrightarrow> depth (Dir s) \<le> j \<Longrightarrow>
      \<exists>s'. preOrderDirectoryTraverse j [] noop tsFileCallback (Dir s) = Returned s' \<and>
        converted (Dir s) s'"
    and children: "\<And>x s. m0 x = Some (Dir s) \<Longrightarrow>
      wellFormed (Dir s) \<and> noConfigClash (Dir s) \<and> depth (Dir s) \<le> j"
    and noclash: "\<And>c s. m0 ''jsconfig.json'' = Some (File c) \<Longrightarrow>
      m0 ''tsconfig.json'' \<noteq> Some (Dir s)"
  shows "distinct rest \<Longrightarrow> set rest \<subseteq> dom m0 \<Longrightarrow> tsInv m0 rest (map_of cur) \<Longrightarrow>
    \<exists>cur'. preOrderEntries j [] rest noop tsFileCallback (Dir cur) = Returned (Dir cur') \<and>
      tsInv m0 [] (map_of cur')"
proof (induction rest arbitrary: cur)
  case Nil
  then show ?case by simp
next
  case (Cons x rest)
  from Cons.prems have fresh: "x \<notin> set rest" and dist: "distinct rest"
    and dom: "set rest \<subseteq> dom m0" by auto
  note inv = Cons.prems(3)
  from Cons.prems(2) obtain v where v: "m0 x = Some v" by auto
  have continue: "\<exists>cur''. preOrderEntries j [] rest noop tsFileCallback (Dir cur') = Returned (Dir cur'')
      \<and> tsInv m0 [] (map_of cur'')" if "tsInv m0 rest (map_of cur')" for cur'
    using Cons.IH [OF dist dom that] .
  show ?case
  proof (cases v)
    case (Dir s)
    with v have x: "m0 x = Some (Dir s)" by simp
    from tsInv_dir [OF inv x] have here: "map_of cur x = Some (Dir s)" by simp
    from sub children [OF x] obtain s' where
      s': "preOrderDirectoryTraverse j [] noop tsFileCallback (Dir s) = Returned s'"
      "converted (Dir s) s'" by blast
    have down: "preOrderDirectoryTraverse j [x] noop tsFileCallback (Dir cur)
        = Returned (Dir (AList.update x s' cur))"
      using preOrderDirectoryTraverse_local [OF local_noop local_tsFileCallback, OF here,
          where k = j and p = "[]"] s'(1)
      by simp
    have "tsInv m0 rest (map_of (AList.update x s' cur))"
      using tsInv_subdir [OF inv x fresh s'(2)] by (simp add: AList.update_conv')
    from continue [OF this] obtain cur'' where
      "preOrderEntries j [] rest noop tsFileCallback (Dir (AList.update x s' cur)) = Returned (Dir cur'')"
      "tsInv m0 [] (map_of cur'')" by blast
    moreover have "noop [x] (Dir cur) = Returned (Dir cur)"
      by (simp add: noop_def)
    ultimately show ?thesis
      using here down by (simp add: isDirectory_top existsSync_top)
  next
    case (File c)
    with v have x: "m0 x = Some (File c)" by simp
    show ?thesis
    proof (cases "isJs x")
      case True
      then have "x \<noteq> ''tsconfig.json''" by auto
      from tsInv_todo_file [OF inv x _ this] have here: "map_of cur x = Some (File c)" by simp
      show ?thesis
      proof (cases "m0 (toTs x)")
        case None
        from tsInv_todo_js [OF inv x True _ None] have free: "map_of cur (toTs x) = None" by simp
        have "renameSync [x] [toTs x] (Dir cur)
            = Returned (Dir (AList.update (toTs x) (File c) (AList.delete x cur)))"
          using ts_neq [OF True] here free by (intro renameSync_top) auto
        then have step: "tsFileCallback [x] (Dir cur)
            = Returned (Dir (AList.update (toTs x) (File c) (AList.delete x cur)))"
          using True free by (simp add: tsFileCallback_top existsSync_top)
        have "tsInv m0 rest (map_of (AList.update (toTs x) (File c) (AList.delete x cur)))"
          using tsInv_rename [OF inv x True fresh None]
          by (simp add: AList.update_conv' AList.delete_conv')
        from continue [OF this] here step show ?thesis
          by (simp add: isDirectory_top)
      next
        case (Some w)
        have there: "map_of cur (toTs x) \<noteq> None"
        proof (cases w)
          case (Dir t)
          with Some tsInv_dir [OF inv, of "toTs x" t] show ?thesis
            by (auto split: if_splits)
        next
          case (File c')
          with Some tsInv_plain_file [OF inv, of "toTs x" c'] ts_not_js [OF True]
            ts_not_config [OF True]
          show ?thesis by auto
        qed
        then have step: "tsFileCallback [x] (Dir cur) = Returned (Dir (AList.delete x cur))"
          using True here by (simp add: tsFileCallback_top existsSync_top unlinkSync_top)
        have "tsInv m0 rest (map_of (AList.delete x cur))"
          using tsInv_unlink [OF inv x True fresh] Some
          by (simp add: AList.delete_conv')
        from continue [OF this] here step show ?thesis
          by (simp add: isDirectory_top)
      qed
    next
      case False
      show ?thesis
      proof (cases "x = ''jsconfig.json''")
        case True
        then have "x \<noteq> ''tsconfig.json''" by simp
        from tsInv_todo_file [OF inv x _ this] have here: "map_of cur x = Some (File c)" by simp
        have nodir: "map_of cur ''tsconfig.json'' \<noteq> Some (Dir s)" for s
          using tsInv_no_new_dir [OF inv, of "''tsconfig.json''" s] noclash x True by auto
        have "renameSync [x] [''tsconfig.json''] (Dir cur)
            = Returned (Dir (AList.update ''tsconfig.json'' (File c) (AList.delete x cur)))"
          using True here nodir by (intro renameSync_top) auto
        then have step: "tsFileCallback [x] (Dir cur)
            = Returned (Dir (AList.update ''tsconfig.json'' (File c) (AList.delete x cur)))"
          using True by (simp add: tsFileCallback_top)
        have "m0 ''tsconfig.json'' \<noteq> Some (Dir s)" for s
          using noclash x True by auto
        then have "tsInv m0 rest
            (map_of (AList.update ''tsconfig.json'' (File c) (AList.delete x cur)))"
          using tsInv_config [OF inv x True fresh]
          by (simp add: AList.update_conv' AList.delete_conv')
        from continue [OF this] here step show ?thesis
          by (simp add: isDirectory_top)
      next
        case notconfig: False
        from tsInv_plain_file [OF inv x False notconfig] obtain c' where
          here: "map_of cur x = Some (File c')" by blast
        have step: "tsFileCallback [x] (Dir cur) = Returned (Dir cur)"
          using False notconfig by (simp add: tsFileCallback_top)
        from continue [OF tsInv_other [OF inv x False notconfig]] here step show ?thesis
          by (simp add: isDirectory_top)
      qed
    qed
  qed
qed

lemma lookup_File_below: "p \<noteq> [] \<Longrightarrow> lookup (File c) p = None"
  by (cases p) simp_all

lemma converted_from_inv:
  assumes inv: "tsInv (map_of es) [] (map_of cur)"
  shows "converted (Dir es) (Dir cur)"
  unfolding converted_def
proof (intro conjI allI impI)
  show "\<exists>es'. Dir cur = Dir es'" by simp
next
  fix dir name c
  assume found: "lookup (Dir es) (dir @ [name]) = Some (File c)" and js: "isJs name"
  show "lookup (Dir cur) (dir @ [name]) = None"
  proof (cases dir)
    case Nil
    with found have "map_of es name = Some (File c)" by (simp add: lookup_top del: lookup.simps)
    from tsInv_done_js [OF inv this js] Nil show ?thesis by (simp add: lookup_top del: lookup.simps)
  next
    case (Cons a dir')
    with found obtain v where v: "map_of es a = Some v" "lookup v (dir' @ [name]) = Some (File c)"
      by (auto split: option.splits)
    then obtain s where s: "v = Dir s" by (cases v) (auto simp: lookup_File_below)
    from tsInv_dir [OF inv, of a s] v s obtain s' where
      s': "map_of cur a = Some s'" "converted (Dir s) s'" by auto
    with v s js Cons show ?thesis
      by (auto simp: converted_def)
  qed
  show "case lookup (Dir es) (dir @ [toTs name]) of
      None \<Rightarrow> lookup (Dir cur) (dir @ [toTs name]) = Some (File c)
    | Some (File c') \<Rightarrow> lookup (Dir cur) (dir @ [toTs name]) = Some (File c')
    | Some (Dir sub) \<Rightarrow> \<exists>sub'. lookup (Dir cur) (dir @ [toTs name]) = Some (Dir sub')"
  proof (cases dir)
    case Nil
    with found have here: "map_of es name = Some (File c)" by (simp add: lookup_top del: lookup.simps)
    show ?thesis
    proof (cases "map_of es (toTs name)")
      case None
      with tsInv_done_js [OF inv here js] Nil show ?thesis by (simp add: lookup_top del: lookup.simps)
    next
      case (Some w)
      show ?thesis
      proof (cases w)
        case (File c')
        with Some tsInv_plain_file [OF inv, of "toTs name" c'] ts_not_js [OF js]
          ts_not_config [OF js] Nil
        show ?thesis by (auto simp: lookup_top simp del: lookup.simps)
      next
        case (Dir t)
        with Some tsInv_dir [OF inv, of "toTs name" t] Nil show ?thesis
          by (auto simp: lookup_top converted_def simp del: lookup.simps)
      qed
    qed
  next
    case (Cons a dir')
    with found obtain v where v: "map_of es a = Some v" "lookup v (dir' @ [name]) = Some (File c)"
      by (auto split: option.splits)
    then obtain s where s: "v = Dir s" by (cases v) (auto simp: lookup_File_below)
    from tsInv_dir [OF inv, of a s] v s obtain s' where
      s': "map_of cur a = Some s'" "converted (Dir s) s'" by auto
    from s'(2) v(2) s js have "case lookup (Dir s) (dir' @ [toTs name]) of
        None \<Rightarrow> lookup s' (dir' @ [toTs name]) = Some (File c)
      | Some (File c') \<Rightarrow> lookup s' (dir' @ [toTs name]) = Some (File c')
      | Some (Dir sub) \<Rightarrow> \<exists>sub'. lookup s' (dir' @ [toTs name]) = Some (Dir sub')"
      unfolding converted_def by blast
    with v s s' show ?thesis
      unfolding Cons by (auto split: option.splits node.splits)
  qed
next
  fix dir name c
  assume found: "lookup (Dir es) (dir @ [name]) = Some (File c)" and plain: "\<not> isJs name"
    "name \<noteq> ''jsconfig.json''" "name \<noteq> ''tsconfig.json''"
  show "lookup (Dir cur) (dir @ [name]) = Some (File c)"
  proof (cases dir)
    case Nil
    with found have "map_of es name = Some (File c)" by (simp add: lookup_top del: lookup.simps)
    from tsInv_plain_file [OF inv this plain(1,2)] plain(3) Nil show ?thesis
      by (auto simp: lookup_top simp del: lookup.simps)
  next
    case (Cons a dir')
    with found obtain v where v: "map_of es a = Some v" "lookup v (dir' @ [name]) = Some (File c)"
      by (auto split: option.splits)
    then obtain s where s: "v = Dir s" by (cases v) (auto simp: lookup_File_below)
    from tsInv_dir [OF inv, of a s] v s obtain s' where
      s': "map_of cur a = Some s'" "converted (Dir s) s'" by auto
    with v s plain Cons show ?thesis
      by (auto simp: converted_def)
  qed
qed

lemma noConfigClash_top:
  "noConfigClash (Dir es) \<Longrightarrow> map_of es ''jsconfig.json'' = Some (File c) \<Longrightarrow>
   map_of es ''tsconfig.json'' \<noteq> Some (Dir s)"
  by (auto simp: isFileAt_def isDirAt_def)

lemma noConfigClash_child:
  "noConfigClash (Dir es) \<Longrightarrow> map_of es a = Some v \<Longrightarrow> noConfigClash v"
  using map_of_SomeD [of es a v] by (fastforce simp: list_all_iff)

lemma tsTraverse:
  "wellFormed (Dir es) \<Longrightarrow> noConfigClash (Dir es) \<Longrightarrow> depth (Dir es) \<le> j \<Longrightarrow>
   \<exists>t'. preOrderDirectoryTraverse j [] noop tsFileCallback (Dir es) = Returned t' \<and>
     converted (Dir es) t'"
proof (induction j arbitrary: es)
  case 0
  then show ?case by simp
next
  case (Suc j)
  have children: "wellFormed (Dir s) \<and> noConfigClash (Dir s) \<and> depth (Dir s) \<le> j"
    if "map_of es x = Some (Dir s)" for x s
  proof -
    from that have mem: "(x, Dir s) \<in> set es" by (rule map_of_SomeD)
    from depth_child [OF mem] Suc.prems(3) have "depth (Dir s) \<le> j" by simp
    with wellFormed_child [OF Suc.prems(1) that] noConfigClash_child [OF Suc.prems(2) that]
    show ?thesis by blast
  qed
  have sub: "\<exists>s'. preOrderDirectoryTraverse j [] noop tsFileCallback (Dir s) = Returned s' \<and>
        converted (Dir s) s'"
    if "wellFormed (Dir s)" "noConfigClash (Dir s)" "depth (Dir s) \<le> j" for s
    using that by (rule Suc.IH)
  have noclash: "map_of es ''tsconfig.json'' \<noteq> Some (Dir s)"
    if "map_of es ''jsconfig.json'' = Some (File c)" for c s
    using Suc.prems(2) that by (rule noConfigClash_top)
  have dist: "distinct (map fst es)" and dom: "set (map fst es) \<subseteq> dom (map_of es)"
    using Suc.prems(1) by (auto simp: dom_map_of_conv_image_fst)
  have "\<exists>cur'. preOrderEntries j [] (map fst es) noop tsFileCallback (Dir es)
      = Returned (Dir cur') \<and> tsInv (map_of es) [] (map_of cur')"
  proof (rule tsEntries)
    show "\<exists>s'. preOrderDirectoryTraverse j [] noop tsFileCallback (Dir s) = Returned s' \<and>
        converted (Dir s) s'"
      if "wellFormed (Dir s)" "noConfigClash (Dir s)" "depth (Dir s) \<le> j" for s
      using that by (rule sub)
    show "wellFormed (Dir s) \<and> noConfigClash (Dir s) \<and> depth (Dir s) \<le> j"
      if "map_of es x = Some (Dir s)" for x s
      using that by (rule children)
    show "map_of es ''tsconfig.json'' \<noteq> Some (Dir s)"
      if "map_of es ''jsconfig.json'' = Some (File c)" for c s
      using that by (rule noclash)
  qed (rule dist dom tsInv_start)+
  then obtain cur' where
    "preOrderEntries j [] (map fst es) noop tsFileCallback (Dir es) = Returned (Dir cur')"
    "tsInv (map_of es) [] (map_of cur')"
    by blast
  with converted_from_inv show ?case by auto
qed

lemma ts_not_index: "isJs x \<Longrightarrow> toTs x \<noteq> ''index.html''"
proof -
  assume "isJs x"
  then obtain stem where "toTs x = stem @ ''.ts''" using js_split by blast
  moreover have "\<not> endsWith ''index.html'' ''.ts''"
    by (simp add: endsWith_def)
  moreover have "endsWith (stem @ ''.ts'') ''.ts''"
    by (simp add: endsWith_def)
  ultimately show ?thesis by metis
qed

lemma lookup_update_elsewhere:
  assumes "p \<noteq> [a]" "p \<noteq> []" "map_of cur a = Some (File h)"
  shows "lookup (Dir (AList.update a (File new) cur)) p = lookup (Dir cur) p"
proof (cases p)
  case Nil
  with assms show ?thesis by simp
next
  case (Cons b r)
  show ?thesis
  proof (cases "b = a")
    case True
    with Cons assms have "r \<noteq> []" by simp
    with True Cons assms(3) show ?thesis
      by (simp add: AList.update_conv' lookup_File_below)
  next
    case False
    with Cons show ?thesis
      by (simp add: AList.update_conv')
  qed
qed

lemma writeFileSync_top:
  "map_of cur x = Some (File h) \<Longrightarrow>
   writeFileSync [x] new (Dir cur) = Returned (Dir (AList.update x (File new) cur))"
  by (simp add: writeFileSync_def dirname_def basename_def)

text \<open>
  Claim C8: on a well-formed tree with an \<open>index.html\<close> in its root, no configuration
  clash and fuel for its depth, the body of \<open>if (needsTypeScript)\<close> returns, and for
  every file of the tree whose name ends in \<open>.js\<close>: the file is gone afterwards; when
  the \<open>.ts\<close> name beside it was a file, that file is unchanged; when the name was free,
  it now holds the content of the \<open>.js\<close> file; when it was a directory, it still is
  one.
\<close>

theorem convertToTypeScript_js_files:
  assumes wf: "wellFormed (Dir es)" and noclash: "noConfigClash (Dir es)"
    and fuel: "depth (Dir es) \<le> fuel"
    and html: "lookup (Dir es) [''index.html''] = Some (File html)"
    and found: "lookup (Dir es) (dir @ [name]) = Some (File content)"
    and js: "endsWith name ''.js''"
  shows "\<exists>fs'. convertToTypeScript fuel [] (Dir es) = Returned fs' \<and>
    lookup fs' (dir @ [name]) = None \<and>
    (case lookup (Dir es) (dir @ [replaceSuffix ''.js'' ''.ts'' name]) of
       None \<Rightarrow> lookup fs' (dir @ [replaceSuffix ''.js'' ''.ts'' name]) = Some (File content)
     | Some (File c) \<Rightarrow> lookup fs' (dir @ [replaceSuffix ''.js'' ''.ts'' name]) = Some (File c)
     | Some (Dir sub) \<Rightarrow>
         (\<exists>sub'. lookup fs' (dir @ [replaceSuffix ''.js'' ''.ts'' name]) = Some (Dir sub')))"
proof -
  from tsTraverse [OF wf noclash fuel] obtain t' where
    t': "preOrderDirectoryTraverse fuel [] noop tsFileCallback (Dir es) = Returned t'"
    and conv: "converted (Dir es) t'" by blast
  from conv obtain cur where cur: "t' = Dir cur"
    unfolding converted_def by blast
  note files = conv [unfolded converted_def, THEN conjunct2, rule_format]
  have "lookup (Dir es) ([] @ [''index.html'']) = Some (File html)"
    using html by (simp del: lookup.simps)
  from files [OF this] have "lookup t' [''index.html''] = Some (File html)"
    by (simp del: lookup.simps)
  with cur have index: "map_of cur ''index.html'' = Some (File html)"
    by (simp add: lookup_top del: lookup.simps)
  let ?new = "replaceFirst ''src/main.js'' ''src/main.ts'' html"
  let ?fs = "Dir (AList.update ''index.html'' (File ?new) cur)"
  have "readFileSync [''index.html''] (Dir cur) = Returned html"
    using index by (simp add: readFileSync_def lookup_top del: lookup.simps)
  then have run: "convertToTypeScript fuel [] (Dir es) = Returned ?fs"
    using t' cur writeFileSync_top [OF index] by (simp add: convertToTypeScript_def)
  have same: "lookup ?fs (dir @ [n]) = lookup t' (dir @ [n])" if "n \<noteq> ''index.html''" for n
    unfolding cur using that index by (intro lookup_update_elsewhere) auto
  from js have other: "name \<noteq> ''index.html''" by auto
  from files [OF found] js have gone: "lookup t' (dir @ [name]) = None"
    and sibling: "case lookup (Dir es) (dir @ [toTs name]) of
       None \<Rightarrow> lookup t' (dir @ [toTs name]) = Some (File content)
     | Some (File c) \<Rightarrow> lookup t' (dir @ [toTs name]) = Some (File c)
     | Some (Dir sub) \<Rightarrow> (\<exists>sub'. lookup t' (dir @ [toTs name]) = Some (Dir sub'))"
    by blast+
  show ?thesis
  proof (intro exI conjI)
    show "convertToTypeScript fuel [] (Dir es) = Returned ?fs" by (rule run)
    show "lookup ?fs (dir @ [name]) = None"
      unfolding same [OF other] by (rule gone)
    show "case lookup (Dir es) (dir @ [toTs name]) of
       None \<Rightarrow> lookup ?fs (dir @ [toTs name]) = Some (File content)
     | Some (File c) \<Rightarrow> lookup ?fs (dir @ [toTs name]) = Some (File c)
     | Some (Dir sub) \<Rightarrow> (\<exists>sub'. lookup ?fs (dir @ [toTs name]) = Some (Dir sub'))"
      unfolding same [OF ts_not_index [OF js]] by (rule sibling)
  qed
qed


theorem convertToTypeScript_js_files_witness:
  "wellFormed (Dir [(''a.js'', File ''A''), (''b.js'', File ''B''), (''b.ts'', File ''BT''),
       (''index.html'', File ''<script src=/src/main.js>''),
       (''src'', Dir [(''main.js'', File ''M'')])]) \<and>
   noConfigClash (Dir [(''a.js'', File ''A''), (''b.js'', File ''B''), (''b.ts'', File ''BT''),
       (''index.html'', File ''<script src=/src/main.js>''),
       (''src'', Dir [(''main.js'', File ''M'')])]) \<and>
   depth (Dir [(''a.js'', File ''A''), (''b.js'', File ''B''), (''b.ts'', File ''BT''),
       (''index.html'', File ''<script src=/src/main.js>''),
       (''src'', Dir [(''main.js'', File ''M'')])]) \<le> 2 \<and>
   lookup (Dir [(''a.js'', File ''A''), (''b.js'', File ''B''), (''b.ts'', File ''BT''),
       (''index.html'', File ''<script src=/src/main.js>''),
       (''src'', Dir [(''main.js'', File ''M'')])]) [''index.html'']
     = Some (File ''<script src=/src/main.js>'') \<and>
   lookup (Dir [(''a.js'', File ''A''), (''b.js'', File ''B''), (''b.ts'', File ''BT''),
       (''index.html'', File ''<script src=/src/main.js>''),
       (''src'', Dir [(''main.js'', File ''M'')])]) ([] @ [''a.js'']) = Some (File ''A'') \<and>
   lookup (Dir [(''a.js'', File ''A''), (''b.js'', File ''B''), (''b.ts'', File ''BT''),
       (''index.html'', File ''<script src=/src/main.js>''),
       (''src'', Dir [(''main.js'', File ''M'')])]) ([] @ [''b.js'']) = Some (File ''B'') \<and>
   endsWith ''a.js'' ''.js'' \<and> endsWith ''b.js'' ''.js'' \<and>
   (\<exists>fs'. convertToTypeScript 2 []
       (Dir [(''a.js'', File ''A''), (''b.js'', File ''B''), (''b.ts'', File ''BT''),
         (''index.html'', File ''<script src=/src/main.js>''),
         (''src'', Dir [(''main.js'', File ''M'')])]) = Returned fs' \<and>
      lookup fs' [''a.js''] = None \<and> lookup fs' [''a.ts''] = Some (File ''A'') \<and>
      lookup fs' [''b.js''] = None \<and> lookup fs' [''b.ts''] = Some (File ''BT''))"
proof -
  let ?es = "[(''a.js'', File ''A''), (''b.js'', File ''B''), (''b.ts'', File ''BT''),
       (''index.html'', File ''<script src=/src/main.js>''),
       (''src'', Dir [(''main.js'', File ''M'')])]"
  have wf: "wellFormed (Dir ?es)" by code_simp
  have noclash: "noConfigClash (Dir ?es)" by code_simp
  have d: "depth (Dir ?es) \<le> 2" by code_simp
  have html: "lookup (Dir ?es) [''index.html''] = Some (File ''<script src=/src/main.js>'')"
    by code_simp
  have a: "lookup (Dir ?es) ([] @ [''a.js'']) = Some (File ''A'')" by code_simp
  have b: "lookup (Dir ?es) ([] @ [''b.js'']) = Some (File ''B'')" by code_simp
  have ja: "endsWith ''a.js'' ''.js''" and jb: "endsWith ''b.js'' ''.js''" by code_simp+
  have ta: "replaceSuffix ''.js'' ''.ts'' ''a.js'' = ''a.ts''"
    and tb: "replaceSuffix ''.js'' ''.ts'' ''b.js'' = ''b.ts''" by code_simp+
  have sa: "lookup (Dir ?es) ([] @ [''a.ts'']) = None"
    and sb: "lookup (Dir ?es) ([] @ [''b.ts'']) = Some (File ''BT'')" by code_simp+
  from convertToTypeScript_js_files [OF wf noclash d html a ja] obtain fs' where
    run: "convertToTypeScript 2 [] (Dir ?es) = Returned fs'"
    and ra: "lookup fs' [''a.js''] = None" "lookup fs' [''a.ts''] = Some (File ''A'')"
    unfolding ta sa by auto
  from convertToTypeScript_js_files [OF wf noclash d html b jb] run
  have rb: "lookup fs' [''b.js''] = None" "lookup fs' [''b.ts''] = Some (File ''BT'')"
    unfolding tb sb by auto
  from wf noclash d html a b ja jb run ra rb show ?thesis by blast
qed

end
